theory Spec2Isabelle
  imports Main
begin

section \<open>JSON values and JavaScript object operations\<close>

text \<open>
  Profile documents, store records and cache documents are JavaScript values obtained from
  JSON. An object is an association list in the order \<open>Object.keys\<close> enumerates it; a
  property that was deleted, or never present, reads as \<open>JUndefined\<close>. Strings are byte
  strings; numbers are integers (no claim depends on a fractional value).
\<close>

datatype json =
    JUndefined
  | JNull
  | JBool bool
  | JNum int
  | JStr string
  | JArr "json list"
  | JObj "(string \<times> json) list"

type_synonym props = "(string \<times> json) list"

datatype error = FetchError | LookupError | LookupTimeout | TypeError | SaveError

text \<open>\<open>entry[key]\<close>: the value of an own property, \<open>undefined\<close> when absent.\<close>

definition getProp :: "props \<Rightarrow> string \<Rightarrow> json" where
  "getProp e k = (case map_of e k of None \<Rightarrow> JUndefined | Some v \<Rightarrow> v)"

text \<open>
  \<open>entry[key] = value\<close>: an existing property keeps its position, a new one is appended
  (the keys written by \<open>cleanEntry\<close> contain an underscore, so none is an array index,
  which JavaScript would enumerate first). The key \<open>__proto__\<close>, on which an assignment
  sets the prototype instead of a property, is treated as any other key.
\<close>

fun setProp :: "props \<Rightarrow> string \<Rightarrow> json \<Rightarrow> props" where
  "setProp [] k v = [(k, v)]"
| "setProp (p # ps) k v = (if fst p = k then (k, v) # ps else p # setProp ps k v)"

text \<open>\<open>delete entry[key]\<close>.\<close>

definition deleteProp :: "props \<Rightarrow> string \<Rightarrow> props" where
  "deleteProp e k = filter (\<lambda>p. fst p \<noteq> k) e"

text \<open>\<open>typeof(value) === 'object'\<close> holds of \<open>null\<close>, arrays and objects.\<close>

fun typeofObject :: "json \<Rightarrow> bool" where
  "typeofObject JNull = True"
| "typeofObject (JArr vs) = True"
| "typeofObject (JObj e) = True"
| "typeofObject v = False"

text \<open>JavaScript truthiness, as tested by \<open>if (x)\<close>.\<close>

fun truthy :: "json \<Rightarrow> bool" where
  "truthy JUndefined = False"
| "truthy JNull = False"
| "truthy (JBool b) = b"
| "truthy (JNum n) = (n \<noteq> 0)"
| "truthy (JStr s) = (s \<noteq> [])"
| "truthy (JArr vs) = True"
| "truthy (JObj e) = True"

text \<open>
  \<open>x.name\<close> for one of the property names the program reads (\<open>account\<close>, \<open>name\<close>,
  \<open>formatted\<close>, \<open>service\<close>, \<open>identifier\<close>): a \<open>TypeError\<close> on \<open>null\<close> and
  \<open>undefined\<close>, the own property of an object, \<open>undefined\<close> on every other value.
\<close>

fun getField :: "json \<Rightarrow> string \<Rightarrow> error + json" where
  "getField JUndefined k = Inl TypeError"
| "getField JNull k = Inl TypeError"
| "getField (JObj e) k = Inr (getProp e k)"
| "getField v k = Inr JUndefined"

section \<open>Sanitizer: \<open>cleanEntry\<close>\<close>

text \<open>\<open>key.replace(/\./g, '_')\<close>.\<close>

definition replaceDots :: "string \<Rightarrow> string" where
  "replaceDots key = map (\<lambda>c. if c = CHR ''.'' then CHR ''_'' else c) key"

text \<open>\<open>key.startsWith('$')\<close>.\<close>

definition startsWithDollar :: "string \<Rightarrow> bool" where
  "startsWithDollar key = (case key of [] \<Rightarrow> False | c # cs \<Rightarrow> c = CHR ''$'')"

text \<open>
  The recursive call of the loop body, \<open>if (typeof(value) === 'object') cleanEntry(value)\<close>,
  with the recursive function as a parameter.
\<close>

definition cleanChild :: "(json \<Rightarrow> json option) \<Rightarrow> json \<Rightarrow> json option" where
  "cleanChild f v = (if typeofObject v then f v else Some v)"

text \<open>
  The two renaming steps of the loop body. The second one tests the key as the first one
  left it (\<open>key = newKey\<close>), and writes \<open>'_' + key.slice(1)\<close>.
\<close>

definition renameKey :: "props \<Rightarrow> string \<Rightarrow> json \<Rightarrow> props" where
  "renameKey e key v =
     (let (e1, key1) =
            (if CHR ''.'' \<in> set key
             then (deleteProp (setProp e (replaceDots key) v) key, replaceDots key)
             else (e, key))
      in if startsWithDollar key1
         then deleteProp (setProp e1 (CHR ''_'' # tl key1) v) key1
         else e1)"

text \<open>
  One iteration of \<open>Object.keys(entry).forEach\<close>. The value is read from the entry as the
  earlier iterations left it. The nested value is cleaned in place, so the entry holds the
  cleaned value under \<open>key\<close> before the renaming steps run.
\<close>

definition cleanKey :: "(json \<Rightarrow> json option) \<Rightarrow> props \<Rightarrow> string \<Rightarrow> props option" where
  "cleanKey f e key =
     (let v = getProp e key in
      case cleanChild f v of
        None \<Rightarrow> None
      | Some v' \<Rightarrow>
          Some (renameKey (if typeofObject v then setProp e key v' else e) key v'))"

text \<open>The loop over the snapshot of keys taken by \<open>Object.keys\<close> before the first iteration.\<close>

fun cleanKeys :: "(json \<Rightarrow> json option) \<Rightarrow> string list \<Rightarrow> props \<Rightarrow> props option" where
  "cleanKeys f [] e = Some e"
| "cleanKeys f (k # ks) e =
     (case cleanKey f e k of None \<Rightarrow> None | Some e' \<Rightarrow> cleanKeys f ks e')"

text \<open>
  The same loop on an array: its keys are the indices, which contain neither a dot nor a
  dollar sign, so only the recursive call acts.
\<close>

fun cleanElems :: "(json \<Rightarrow> json option) \<Rightarrow> json list \<Rightarrow> json list option" where
  "cleanElems f [] = Some []"
| "cleanElems f (v # vs) =
     (case cleanChild f v of
        None \<Rightarrow> None
      | Some v' \<Rightarrow> (case cleanElems f vs of None \<Rightarrow> None | Some vs' \<Rightarrow> Some (v' # vs')))"

text \<open>
  \<open>cleanEntry\<close> with a bound on the depth of the recursion: the recursive call is made on
  a value read from the entry being rewritten, which is not a subterm of the argument.
  \<open>None\<close> means the bound was reached. A falsy or primitive entry is returned as it is.
\<close>

primrec cleanEntry_fuel :: "nat \<Rightarrow> json \<Rightarrow> json option" where
  "cleanEntry_fuel 0 entry = None"
| "cleanEntry_fuel (Suc n) entry =
     (case entry of
        JObj e \<Rightarrow> map_option JObj (cleanKeys (cleanEntry_fuel n) (map fst e) e)
      | JArr vs \<Rightarrow> map_option JArr (cleanElems (cleanEntry_fuel n) vs)
      | _ \<Rightarrow> Some entry)"

fun json_depth :: "json \<Rightarrow> nat" where
  "json_depth (JArr vs) = Suc (fold max (map json_depth vs) 0)"
| "json_depth (JObj e) = Suc (fold max (map (\<lambda>p. json_depth (snd p)) e) 0)"
| "json_depth v = 0"

text \<open>
  \<open>cleanEntry\<close> itself: the bounded function run with a bound that is always enough
  (lemma \<open>cleanEntry_fuel_enough\<close> below: every bound above the depth of the entry gives
  this result).
\<close>

definition cleanEntry :: "json \<Rightarrow> json" where
  "cleanEntry entry =
     (case cleanEntry_fuel (Suc (json_depth entry)) entry of Some r \<Rightarrow> r | None \<Rightarrow> entry)"

text \<open>A key the store accepts: no dot in it, no dollar sign in front.\<close>

definition safeKey :: "string \<Rightarrow> bool" where
  "safeKey k = (CHR ''.'' \<notin> set k \<and> \<not> startsWithDollar k)"

fun keysSafe :: "json \<Rightarrow> bool" where
  "keysSafe (JObj e) = list_all (\<lambda>p. safeKey (fst p) \<and> keysSafe (snd p)) e"
| "keysSafe (JArr vs) = list_all keysSafe vs"
| "keysSafe v = True"

text \<open>
  The values that stand for a JavaScript value: no object has the same key twice, at any
  depth.
\<close>

fun wf_json :: "json \<Rightarrow> bool" where
  "wf_json (JObj e) = (distinct (map fst e) \<and> list_all (\<lambda>p. wf_json (snd p)) e)"
| "wf_json (JArr vs) = list_all wf_json vs"
| "wf_json v = True"

text \<open>Predicates on the recursive function handed to the loop, used in the proofs below.\<close>

definition cleans :: "(json \<Rightarrow> json option) \<Rightarrow> bool" where
  "cleans f = (\<forall>x y. wf_json x \<longrightarrow> f x = Some y \<longrightarrow> keysSafe y \<and> wf_json y)"

definition pending :: "string list \<Rightarrow> props \<Rightarrow> bool" where
  "pending ks e = (distinct (map fst e) \<and>
     (\<forall>p \<in> set e. wf_json (snd p) \<and> (fst p \<in> set ks \<or> (safeKey (fst p) \<and> keysSafe (snd p)))))"

definition shrinks :: "nat \<Rightarrow> (json \<Rightarrow> json option) \<Rightarrow> bool" where
  "shrinks n f = (\<forall>x. json_depth x < n \<longrightarrow> (\<exists>y. f x = Some y \<and> json_depth y \<le> json_depth x))"

definition extends :: "(json \<Rightarrow> json option) \<Rightarrow> (json \<Rightarrow> json option) \<Rightarrow> bool" where
  "extends f g = (\<forall>x y. f x = Some y \<longrightarrow> g x = Some y)"

text \<open>Three records for the examples: nested unsafe keys, two keys that collide, safe keys only.\<close>

definition nestedEntry :: json where
  "nestedEntry =
     JObj [(''$a.b'', JObj [(''x.y'', JArr [JObj [(''$k'', JNull)]])]), (''c'', JNum 2)]"

definition collidingEntry :: json where
  "collidingEntry = JObj [(''a.b'', JNum 1), (''a_b'', JNum 2)]"

definition dottedEntry :: json where
  "dottedEntry = JObj [(''first.name'', JStr ''x''), (''$set'', JObj [(''a.b.c'', JNum 7)])]"

section \<open>Paginated enumeration: \<open>getAllNames\<close>, \<open>getAllSubdomains\<close>\<close>

text \<open>
  The directory service is a function from the requested URL to the outcome of
  \<open>fetch(fetchUrl).then(resp => resp.json())\<close>: a rejection or a page of names.
\<close>

datatype url = NamesPage nat | SubdomainsPage nat

type_synonym service = "url \<Rightarrow> error + string list"

text \<open>
  \<open>pagesToFetch && pagesToFetch > 0 && page >= pagesToFetch\<close>; \<open>None\<close> is an
  \<open>options.pagesToFetch\<close> that was not given.
\<close>

definition capReached :: "nat \<Rightarrow> int option \<Rightarrow> bool" where
  "capReached page pagesToFetch =
     (case pagesToFetch of
        None \<Rightarrow> False
      | Some n \<Rightarrow> n \<noteq> 0 \<and> n > 0 \<and> int page \<ge> n)"

text \<open>
  \<open>_getAllNames\<close> (an identifier cannot start with an underscore here). The promise may
  never settle, when no page is empty and no cap applies: that is the result \<open>None\<close>.
  The calls of the logger have no effect on the result and are left out, here and below.
\<close>

partial_function (option) getAllNames_rec ::
  "service \<Rightarrow> nat \<Rightarrow> string list \<Rightarrow> int option \<Rightarrow> (error + string list) option" where
  "getAllNames_rec fetch page priorNames pagesToFetch =
     (if capReached page pagesToFetch then Some (Inr priorNames)
      else case fetch (NamesPage page) of
             Inl err \<Rightarrow> Some (Inl err)
           | Inr names \<Rightarrow>
               if length names > 0
               then getAllNames_rec fetch (page + 1) (priorNames @ names) pagesToFetch
               else Some (Inr priorNames))"

text \<open>\<open>_getAllSubdomains\<close>.\<close>

partial_function (option) getAllSubdomains_rec ::
  "service \<Rightarrow> nat \<Rightarrow> string list \<Rightarrow> int option \<Rightarrow> (error + string list) option" where
  "getAllSubdomains_rec fetch page priorNames pagesToFetch =
     (if capReached page pagesToFetch then Some (Inr priorNames)
      else case fetch (SubdomainsPage page) of
             Inl err \<Rightarrow> Some (Inl err)
           | Inr names \<Rightarrow>
               if length names > 0
               then getAllSubdomains_rec fetch (page + 1) (priorNames @ names) pagesToFetch
               else Some (Inr priorNames))"

declare getAllNames_rec.simps [code]
declare getAllSubdomains_rec.simps [code]

definition getAllNames :: "service \<Rightarrow> int option \<Rightarrow> (error + string list) option" where
  "getAllNames fetch pagesToFetch = getAllNames_rec fetch 0 [] pagesToFetch"

definition getAllSubdomains :: "service \<Rightarrow> int option \<Rightarrow> (error + string list) option" where
  "getAllSubdomains fetch pagesToFetch = getAllSubdomains_rec fetch 0 [] pagesToFetch"

text \<open>The names of one page, as the service returns them (none when the fetch fails).\<close>

definition pageNames :: "service \<Rightarrow> url \<Rightarrow> string list" where
  "pageNames fetch u = (case fetch u of Inl err \<Rightarrow> [] | Inr names \<Rightarrow> names)"

text \<open>A service with the single name \<open>a\<close> on page 0 of each listing, and empty pages after it.\<close>

definition onePageService :: service where
  "onePageService u =
     (case u of
        NamesPage p \<Rightarrow> if p = 0 then Inr [''a''] else Inr []
      | SubdomainsPage p \<Rightarrow> if p = 0 then Inr [''a''] else Inr [])"

text \<open>A service with two pages of names and one page of subdomains.\<close>

definition twoPageService :: service where
  "twoPageService u =
     (case u of
        NamesPage p \<Rightarrow> if p = 0 then Inr [''a'', ''b''] else if p = 1 then Inr [''c''] else Inr []
      | SubdomainsPage p \<Rightarrow> if p = 0 then Inr [''s''] else Inr [])"

section \<open>Batched resolution: \<open>fetchNames\<close>\<close>

text \<open>
  What \<open>lookupProfile(name)\<close> does within the timeout: it resolves to a profile, it
  rejects, or it is still pending when the timer fires.
\<close>

datatype lookup = Resolved json | Rejected | Pending

text \<open>\<open>Promise.race\<close> of the timer and the lookup.\<close>

definition lookupProfileWithTimeout :: "(string \<Rightarrow> lookup) \<Rightarrow> string \<Rightarrow> error + json" where
  "lookupProfileWithTimeout lookupProfile name =
     (case lookupProfile name of
        Resolved profile \<Rightarrow> Inr profile
      | Rejected \<Rightarrow> Inl LookupError
      | Pending \<Rightarrow> Inl LookupTimeout)"

text \<open>Decimal digits of an array index, for the keys \<open>Object.assign\<close> gives an array or a string.\<close>

fun showNat :: "nat \<Rightarrow> string" where
  "showNat n =
     (if n < 10 then [''0123456789'' ! n]
      else showNat (n div 10) @ [''0123456789'' ! (n mod 10)])"

text \<open>
  \<open>Object.assign({}, profile)\<close>: a fresh object with the own enumerable properties of
  the profile (the indices of an array or a string; none for the other values). As in
  \<open>setProp\<close>, a key \<open>__proto__\<close> is copied as any other key.
\<close>

fun objectAssign :: "json \<Rightarrow> json" where
  "objectAssign (JObj e) = JObj e"
| "objectAssign (JArr vs) = JObj (map (\<lambda>i. (showNat i, vs ! i)) [0..<length vs])"
| "objectAssign (JStr s) = JObj (map (\<lambda>i. (showNat i, JStr [s ! i])) [0..<length s])"
| "objectAssign v = JObj []"

record index_entry =
  key :: string
  value' :: json

text \<open>\<open>fetchName\<close>: \<open>None\<close> is the \<open>null\<close> returned by the \<open>catch\<close> branch.\<close>

definition fetchName :: "(string \<Rightarrow> lookup) \<Rightarrow> string \<Rightarrow> index_entry option" where
  "fetchName lookupProfile name =
     (case lookupProfileWithTimeout lookupProfile name of
        Inr profile \<Rightarrow> Some \<lparr>key = name, value' = cleanEntry (objectAssign profile)\<rparr>
      | Inl err \<Rightarrow> None)"

record profile_entry =
  profile :: json
  fqu :: json

text \<open>What the resolver does besides computing its result: batches of lookups, and pauses.\<close>

datatype event = LookupBatch "string list" | Delay nat

record fetch_state =
  batch :: "string list"
  profiles :: "profile_entry list"
  errorCount :: nat
  ix :: nat
  events :: "event list"

text \<open>\<open>results.forEach(result => ...)\<close>, one result.\<close>

definition collectResult :: "fetch_state \<Rightarrow> index_entry option \<Rightarrow> fetch_state" where
  "collectResult st result =
     (case result of
        Some r \<Rightarrow> st\<lparr>profiles := profiles st @ [\<lparr>profile = value' r, fqu = JStr (key r)\<rparr>]\<rparr>
      | None \<Rightarrow> st\<lparr>errorCount := errorCount st + 1\<rparr>)"

text \<open>\<open>await Promise.all(batch.map(fetchName))\<close> and the loop over its results.\<close>

definition runBatch :: "(string \<Rightarrow> lookup) \<Rightarrow> fetch_state \<Rightarrow> fetch_state" where
  "runBatch lookupProfile st =
     foldl collectResult (st\<lparr>events := events st @ [LookupBatch (batch st)]\<rparr>)
       (map (fetchName lookupProfile) (batch st))"

text \<open>The body of \<open>for (const name of names)\<close>; \<open>promiseTimer\<close> is the event \<open>Delay\<close>.\<close>

definition fetchStep :: "(string \<Rightarrow> lookup) \<Rightarrow> nat \<Rightarrow> int \<Rightarrow> fetch_state \<Rightarrow> string \<Rightarrow> fetch_state" where
  "fetchStep lookupProfile BATCH_DELAY batchSize st name =
     (let st1 =
            (if int (length (batch st)) \<ge> batchSize
             then (let st' = runBatch lookupProfile st
                   in st'\<lparr>events := events st' @ [Delay BATCH_DELAY], batch := []\<rparr>)
             else st)
      in st1\<lparr>ix := ix st1 + 1, batch := batch st1 @ [name]\<rparr>)"

definition fetchLoop :: "(string \<Rightarrow> lookup) \<Rightarrow> nat \<Rightarrow> int \<Rightarrow> string list \<Rightarrow> fetch_state" where
  "fetchLoop lookupProfile BATCH_DELAY batchSize names =
     foldl (fetchStep lookupProfile BATCH_DELAY batchSize)
       \<lparr>batch = [], profiles = [], errorCount = 0, ix = 0, events = []\<rparr> names"

text \<open>
  \<open>fetchNames\<close> returns \<open>[profiles, errorCount]\<close>; the third component is the sequence
  of events of the run.
\<close>

definition fetchNames ::
  "(string \<Rightarrow> lookup) \<Rightarrow> nat \<Rightarrow> string list \<Rightarrow> int \<Rightarrow> profile_entry list \<times> nat \<times> event list" where
  "fetchNames lookupProfile BATCH_DELAY names batchSize =
     (let st = fetchLoop lookupProfile BATCH_DELAY batchSize names;
          st' = (if length (batch st) > 0 then runBatch lookupProfile st else st)
      in (profiles st', errorCount st', events st'))"

fun isDelay :: "event \<Rightarrow> bool" where
  "isDelay (Delay d) = True"
| "isDelay (LookupBatch b) = False"

fun isResolved :: "lookup \<Rightarrow> bool" where
  "isResolved (Resolved p) = True"
| "isResolved l = False"

text \<open>A lookup service on which \<open>b\<close> never answers and every other name has an empty profile.\<close>

definition bTimesOut :: "string \<Rightarrow> lookup" where
  "bTimesOut name = (if name = ''b'' then Pending else Resolved (JObj []))"


section \<open>Persisting the resolved entries: \<open>processAllNames\<close>\<close>

text \<open>\<open>username.endsWith('.id')\<close> and \<open>username.slice(0, -3)\<close>, on a string.\<close>

definition endsWith :: "string \<Rightarrow> string \<Rightarrow> bool" where
  "endsWith s suffix =
     (length suffix \<le> length s \<and> drop (length s - length suffix) s = suffix)"

definition deriveUsername :: "string \<Rightarrow> string" where
  "deriveUsername fullName =
     (if endsWith fullName ''.id'' then take (length fullName - 3) fullName else fullName)"

text \<open>
  \<open>_fetchAllNames\<close>. \<open>Promise.all\<close> of the two enumerations rejects as soon as one of
  them rejects, and stays pending while one is pending and none has rejected.
\<close>

definition fetchAllNames ::
  "service \<Rightarrow> (string \<Rightarrow> lookup) \<Rightarrow> nat \<Rightarrow> int \<Rightarrow> int option \<Rightarrow>
   (error + string list \<times> profile_entry list) option" where
  "fetchAllNames fetch lookupProfile BATCH_DELAY BATCH_SIZE cap =
     (case (getAllNames fetch cap, getAllSubdomains fetch cap) of
        (Some (Inl err), other) \<Rightarrow> Some (Inl err)
      | (other, Some (Inl err)) \<Rightarrow> Some (Inl err)
      | (Some (Inr allDomains), Some (Inr allSubdomains)) \<Rightarrow>
          (let names = allDomains @ allSubdomains;
               (resolved, errors, evs) = fetchNames lookupProfile BATCH_DELAY names BATCH_SIZE
           in Some (Inr (names, resolved)))
      | (other1, other2) \<Rightarrow> None)"

datatype collection = ProfileCollection | NamespaceCollection

text \<open>
  What a run does to the document store, in order. A save is named by the collection and by
  the position of its entry in \<open>profiles\<close>, so that two saves of equal documents are two
  events. \<open>SaveIssued\<close> is the call of \<open>save\<close>; \<open>SaveDone\<close> and \<open>SaveFailed\<close> are the
  fulfilment and the rejection of the promise it returned; \<open>Warned\<close> is the warning
  logged for a record that could not be processed.
\<close>

datatype store_event =
    SaveIssued collection nat json
  | SaveDone collection nat json
  | SaveFailed collection nat json
  | Warned json

text \<open>
  The document store: which saves it fulfils, and the time at which it answers each save.
  The saves of one pass are in flight together and settle in the order the store answers
  them, whatever the order in which they were issued.
\<close>

record doc_store =
  fulfils :: "collection \<Rightarrow> nat \<Rightarrow> json \<Rightarrow> bool"
  answeredAt :: "collection \<Rightarrow> nat \<Rightarrow> json \<Rightarrow> nat"

definition settlements :: "doc_store \<Rightarrow> collection \<Rightarrow> (nat \<times> json) list \<Rightarrow> store_event list" where
  "settlements st c saves =
     map (\<lambda>(i, doc). if fulfils st c i doc then SaveDone c i doc else SaveFailed c i doc)
       (sort_key (\<lambda>(i, doc). answeredAt st c i doc) saves)"

text \<open>The document \<open>{ key: entry.fqu, value: cleanEntry(entry.profile) }\<close>.\<close>

definition profileDoc :: "profile_entry \<Rightarrow> json" where
  "profileDoc entry = JObj [(''key'', fqu entry), (''value'', cleanEntry (profile entry))]"

text \<open>
  The \<open>try\<close> block of the second pass: \<open>None\<close> when \<open>username.endsWith\<close> raises, which it
  does on every \<open>fqu\<close> that is not a string.
\<close>

definition namespaceDoc :: "profile_entry \<Rightarrow> json option" where
  "namespaceDoc entry =
     (case fqu entry of
        JStr username \<Rightarrow>
          Some (JObj [(''username'', JStr (deriveUsername username)),
                      (''fqu'', fqu entry),
                      (''profile'', cleanEntry (profile entry))])
      | other \<Rightarrow> None)"

text \<open>
  The callback of the second pass on the entry at position \<open>i\<close>: the save of the new
  record, or the warning of the \<open>catch\<close> branch. The warning names \<open>entry.key\<close>, a
  property the entries do not have.
\<close>

definition namespaceEvent :: "nat \<times> profile_entry \<Rightarrow> store_event" where
  "namespaceEvent ie =
     (case namespaceDoc (snd ie) of
        Some doc \<Rightarrow> SaveIssued NamespaceCollection (fst ie) doc
      | None \<Rightarrow> Warned JUndefined)"

definition namespaceSave :: "nat \<times> profile_entry \<Rightarrow> (nat \<times> json) option" where
  "namespaceSave ie = map_option (Pair (fst ie)) (namespaceDoc (snd ie))"

text \<open>
  The continuation of \<open>fetchingPromise\<close>. The first pass cleans each \<open>entry.profile\<close> in
  place and issues every profile save, in the order of the entries; the saves then settle
  in the order the store answers. \<open>Promise.all(...).then\<close> starts the second pass once all
  of them are fulfilled, and rejects without starting it when one is rejected. The second
  pass reads the entries as the first one left them.
\<close>

definition processResults ::
  "doc_store \<Rightarrow> profile_entry list \<Rightarrow> store_event list \<times> (error + unit)" where
  "processResults st entries =
     (let saves1 = enumerate 0 (map profileDoc entries);
          cleaned = map (\<lambda>entry. entry\<lparr>profile := cleanEntry (profile entry)\<rparr>) entries;
          issued1 = map (\<lambda>(i, doc). SaveIssued ProfileCollection i doc) saves1;
          settled1 = settlements st ProfileCollection saves1
      in if list_all (\<lambda>(i, doc). fulfils st ProfileCollection i doc) saves1
         then (let saves2 = List.map_filter namespaceSave (enumerate 0 cleaned);
                   issued2 = map namespaceEvent (enumerate 0 cleaned);
                   settled2 = settlements st NamespaceCollection saves2
               in (issued1 @ settled1 @ issued2 @ settled2,
                   if list_all (\<lambda>(i, doc). fulfils st NamespaceCollection i doc) saves2
                   then Inr () else Inl SaveError))
         else (issued1 @ settled1, Inl SaveError))"

text \<open>
  \<open>fetchingPromise\<close>: the parsed contents of the two files when \<open>options.useFiles\<close>
  is given, the live enumeration and resolution otherwise.
\<close>

definition fetchingPromise ::
  "service \<Rightarrow> (string \<Rightarrow> lookup) \<Rightarrow> nat \<Rightarrow> int \<Rightarrow>
   (string list \<times> profile_entry list) option \<Rightarrow> int option \<Rightarrow>
   (error + string list \<times> profile_entry list) option" where
  "fetchingPromise fetch lookupProfile BATCH_DELAY BATCH_SIZE useFiles cap =
     (case useFiles of
        Some files \<Rightarrow> Some (Inr files)
      | None \<Rightarrow> fetchAllNames fetch lookupProfile BATCH_DELAY BATCH_SIZE cap)"

text \<open>
  \<open>processAllNames\<close>; \<open>None\<close> is a run that never settles, which happens only when
  \<open>fetchingPromise\<close> never settles.
\<close>

definition processAllNames ::
  "service \<Rightarrow> (string \<Rightarrow> lookup) \<Rightarrow> nat \<Rightarrow> int \<Rightarrow> doc_store \<Rightarrow>
   (string list \<times> profile_entry list) option \<Rightarrow> int option \<Rightarrow>
   (store_event list \<times> (error + unit)) option" where
  "processAllNames fetch lookupProfile BATCH_DELAY BATCH_SIZE st useFiles cap =
     (case fetchingPromise fetch lookupProfile BATCH_DELAY BATCH_SIZE useFiles cap of
        None \<Rightarrow> None
      | Some (Inl err) \<Rightarrow> Some ([], Inl err)
      | Some (Inr (names, entries)) \<Rightarrow> Some (processResults st entries))"

text \<open>The saves into the profile collection that a trace issues, and those it completes.\<close>

fun issuedProfileSave :: "store_event \<Rightarrow> (nat \<times> json) option" where
  "issuedProfileSave (SaveIssued ProfileCollection i doc) = Some (i, doc)"
| "issuedProfileSave ev = None"

fun doneProfileSave :: "store_event \<Rightarrow> (nat \<times> json) option" where
  "doneProfileSave (SaveDone ProfileCollection i doc) = Some (i, doc)"
| "doneProfileSave ev = None"

text \<open>
  A lookup service on which \<open>b\<close> is rejected and every other name has a profile with a
  dotted key, and a store that fulfils every save and answers the later saves first.
\<close>

definition dottedProfiles :: "string \<Rightarrow> lookup" where
  "dottedProfiles name =
     (if name = ''b'' then Rejected else Resolved (JObj [(''a.b'', JStr name)]))"

text \<open>The entries the live run on these two services resolves.\<close>

definition resolvedEntries :: "profile_entry list" where
  "resolvedEntries =
     [\<lparr>profile = JObj [(''a_b'', JStr ''a'')], fqu = JStr ''a''\<rparr>,
      \<lparr>profile = JObj [(''a_b'', JStr ''c'')], fqu = JStr ''c''\<rparr>,
      \<lparr>profile = JObj [(''a_b'', JStr ''s'')], fqu = JStr ''s''\<rparr>]"

definition lastFirstStore :: doc_store where
  "lastFirstStore =
     \<lparr>fulfils = (\<lambda>c i doc. True), answeredAt = (\<lambda>c i doc. 10 - i)\<rparr>"

section \<open>Index building: \<open>createSearchIndex\<close>\<close>

record namespace_record = profile_entry +
  username :: json

text \<open>\<open>toLocaleLowerCase\<close> on the letters A to Z; a \<open>TypeError\<close> on a value that is not a string.\<close>

definition lowerChar :: "char \<Rightarrow> char" where
  "lowerChar c =
     (case map_of (zip ''ABCDEFGHIJKLMNOPQRSTUVWXYZ'' ''abcdefghijklmnopqrstuvwxyz'') c of
        None \<Rightarrow> c
      | Some l \<Rightarrow> l)"

fun toLocaleLowerCase :: "json \<Rightarrow> error + json" where
  "toLocaleLowerCase (JStr s) = Inr (JStr (map lowerChar s))"
| "toLocaleLowerCase v = Inl TypeError"

text \<open>
  The callback of \<open>profile.account.forEach\<close>, on the pair of \<open>openbazaar\<close> and
  \<open>twitterHandle\<close>.
\<close>

definition scanAccount :: "json \<times> json \<Rightarrow> json \<Rightarrow> error + json \<times> json" where
  "scanAccount handles account =
     (case getField account ''service'' of
        Inl err \<Rightarrow> Inl err
      | Inr service \<Rightarrow>
          if service = JStr ''openbazaar''
          then (case getField account ''identifier'' of
                  Inl err \<Rightarrow> Inl err
                | Inr identifier \<Rightarrow> Inr (identifier, snd handles))
          else if service = JStr ''twitter''
          then (case getField account ''identifier'' of
                  Inl err \<Rightarrow> Inl err
                | Inr identifier \<Rightarrow> Inr (fst handles, identifier))
          else Inr handles)"

fun forEachAccount :: "json list \<Rightarrow> json \<times> json \<Rightarrow> error + json \<times> json" where
  "forEachAccount [] handles = Inr handles"
| "forEachAccount (account # accounts) handles =
     (case scanAccount handles account of
        Inl err \<Rightarrow> Inl err
      | Inr handles' \<Rightarrow> forEachAccount accounts handles')"

text \<open>
  \<open>if (profile.account) { profile.account.forEach(...) }\<close>: a truthy \<open>account\<close> that is
  not an array has no \<open>forEach\<close>, and the call raises.
\<close>

definition scanAccounts :: "json \<Rightarrow> error + json \<times> json" where
  "scanAccounts prof =
     (case getField prof ''account'' of
        Inl err \<Rightarrow> Inl err
      | Inr account \<Rightarrow>
          if truthy account
          then (case account of
                  JArr accounts \<Rightarrow> forEachAccount accounts (JNull, JNull)
                | other \<Rightarrow> Inl TypeError)
          else Inr (JNull, JNull))"

text \<open>\<open>if (profile.name) { ... }\<close>.\<close>

definition displayName :: "json \<Rightarrow> error + json" where
  "displayName prof =
     (case getField prof ''name'' of
        Inl err \<Rightarrow> Inl err
      | Inr name \<Rightarrow>
          if truthy name
          then (case getField name ''formatted'' of
                  Inl err \<Rightarrow> Inl err
                | Inr formatted \<Rightarrow> toLocaleLowerCase (if truthy formatted then formatted else name))
          else Inr JNull)"

record index_state =
  peopleNames :: "json list"
  twitterHandles :: "json list"
  usernames :: "json list"
  errors :: "json list"
  searchProfiles :: "json list"

text \<open>The callback of \<open>cursor.forEach\<close>: the \<open>try\<close> block, and the \<open>catch\<close> branch on an error.\<close>

definition indexUser :: "index_state \<Rightarrow> namespace_record \<Rightarrow> index_state" where
  "indexUser st user =
     (case scanAccounts (profile user) of
        Inl err \<Rightarrow> st\<lparr>errors := errors st @ [fqu user]\<rparr>
      | Inr (openbazaar, twitterHandle) \<Rightarrow>
          (case displayName (profile user) of
             Inl err \<Rightarrow> st\<lparr>errors := errors st @ [fqu user]\<rparr>
           | Inr name \<Rightarrow>
               st\<lparr>peopleNames := (if truthy name then peopleNames st @ [name] else peopleNames st),
                  twitterHandles :=
                    (if truthy twitterHandle then twitterHandles st @ [twitterHandle]
                     else twitterHandles st),
                  usernames := (if truthy (fqu user) then usernames st @ [fqu user] else usernames st),
                  searchProfiles := searchProfiles st @
                    [JObj [(''name'', name), (''profile'', profile user),
                           (''openbazaar'', openbazaar), (''twitter_handle'', twitterHandle),
                           (''username'', username user), (''fullyQualifiedName'', fqu user)]]\<rparr>))"

text \<open>
  \<open>[...new Set(values)]\<close>: the first occurrence of each value is kept. A \<open>Set\<close> compares
  primitive values by value and objects by identity; the objects pushed come from
  different records, so no two of them are the same object.
\<close>

fun sameValueZero :: "json \<Rightarrow> json \<Rightarrow> bool" where
  "sameValueZero (JArr vs) b = False"
| "sameValueZero (JObj e) b = False"
| "sameValueZero a b = (a = b)"

definition setAdd :: "json list \<Rightarrow> json \<Rightarrow> json list" where
  "setAdd s x = (if list_ex (\<lambda>y. sameValueZero y x) s then s else s @ [x])"

definition newSet :: "json list \<Rightarrow> json list" where
  "newSet values = foldl setAdd [] values"

record search_index =
  peopleCache :: json
  twitterCache :: json
  usernameCache :: json
  savedProfiles :: "json list"
  errorNames :: "json list"

definition emptyIndex :: index_state where
  "emptyIndex =
     \<lparr>peopleNames = [], twitterHandles = [], usernames = [], errors = [], searchProfiles = []\<rparr>"

definition scanUsers :: "namespace_record list \<Rightarrow> index_state" where
  "scanUsers users = foldl indexUser emptyIndex users"

text \<open>
  \<open>createSearchIndex\<close> on the records the cursor yields: the three cache documents it
  saves, the search profiles saved during the scan, and the names logged as errors.
\<close>

definition createSearchIndex :: "namespace_record list \<Rightarrow> search_index" where
  "createSearchIndex users =
     (let st = scanUsers users
      in \<lparr>peopleCache = JObj [(''name'', JArr (newSet (peopleNames st)))],
          twitterCache = JObj [(''twitter_handle'', JArr (newSet (twitterHandles st)))],
          usernameCache = JObj [(''username'', JArr (newSet (usernames st)))],
          savedProfiles = searchProfiles st,
          errorNames = errors st\<rparr>)"

text \<open>The values a cache document holds.\<close>

fun cacheValues :: "json \<Rightarrow> json list" where
  "cacheValues (JObj [(field, JArr vs)]) = vs"
| "cacheValues doc = []"

text \<open>The two namespace records of the example.\<close>

definition aliceRecord :: namespace_record where
  "aliceRecord =
     \<lparr>profile = JObj [(''name'', JObj [(''formatted'', JStr ''Alice A'')]),
                       (''account'', JArr [JObj [(''service'', JStr ''twitter''),
                                                 (''identifier'', JStr ''@a'')]])],
      fqu = JStr ''a.id'',
      username = JUndefined\<rparr>"

definition bobRecord :: namespace_record where
  "bobRecord =
     \<lparr>profile = JObj [(''name'', JStr ''bob'')], fqu = JStr ''b.id'', username = JUndefined\<rparr>"

text \<open>A record whose \<open>account\<close> list holds a \<open>null\<close>: reading \<open>account.service\<close> raises.\<close>

definition brokenRecord :: namespace_record where
  "brokenRecord =
     \<lparr>profile = JObj [(''name'', JStr ''Eve''),
                       (''account'', JArr [JObj [(''service'', JStr ''twitter''),
                                                 (''identifier'', JStr ''@e'')],
                                           JNull])],
      fqu = JStr ''e.id'',
      username = JStr ''e''\<rparr>"

section \<open>Properties of the sanitizer\<close>

lemma setProp_keys:
  "map fst (setProp e k v) = (if k \<in> fst ` set e then map fst e else map fst e @ [k])"
  by (induction e) auto

lemma setProp_distinct: "distinct (map fst e) \<Longrightarrow> distinct (map fst (setProp e k v))"
  by (simp add: setProp_keys)

lemma setProp_set:
  "distinct (map fst e) \<Longrightarrow> set (setProp e k v) = insert (k, v) {p \<in> set e. fst p \<noteq> k}"
  by (induction e) (auto simp: rev_image_eqI)

lemma deleteProp_set: "set (deleteProp e k) = {p \<in> set e. fst p \<noteq> k}"
  by (auto simp: deleteProp_def)

lemma deleteProp_distinct: "distinct (map fst e) \<Longrightarrow> distinct (map fst (deleteProp e k))"
  by (simp add: deleteProp_def distinct_map_filter)

lemma replaceDots_nodot: "CHR ''.'' \<notin> set (replaceDots k)"
  by (auto simp: replaceDots_def)

lemma renameKey_distinct: "distinct (map fst e) \<Longrightarrow> distinct (map fst (renameKey e k v))"
  by (simp add: renameKey_def Let_def setProp_distinct deleteProp_distinct)

lemma underscore_safe: "CHR ''.'' \<notin> set k \<Longrightarrow> safeKey (CHR ''_'' # tl k)"
  by (cases k) (auto simp: safeKey_def startsWithDollar_def)

lemma renameKey_set:
  assumes d: "distinct (map fst e)" and p: "p \<in> set (renameKey e k v)"
  shows "(p \<in> set e \<and> (fst p \<noteq> k \<or> safeKey k)) \<or> (snd p = v \<and> safeKey (fst p))"
proof (cases "CHR ''.'' \<in> set k")
  case dot: True
  let ?k1 = "replaceDots k"
  let ?e1 = "deleteProp (setProp e ?k1 v) k"
  have d1: "distinct (map fst ?e1)"
    using d by (simp add: setProp_distinct deleteProp_distinct)
  have e1: "q \<in> set ?e1 \<Longrightarrow> (q \<in> set e \<and> fst q \<noteq> k) \<or> q = (?k1, v)" for q
    using d by (auto simp: deleteProp_set setProp_set)
  show ?thesis
  proof (cases "startsWithDollar ?k1")
    case True
    then have "p \<in> set (deleteProp (setProp ?e1 (CHR ''_'' # tl ?k1) v) ?k1)"
      using p dot by (simp add: renameKey_def)
    then have "p = (CHR ''_'' # tl ?k1, v) \<or> (p \<in> set ?e1 \<and> fst p \<noteq> ?k1)"
      using d1 by (auto simp: deleteProp_set setProp_set)
    then show ?thesis
    proof
      assume "p = (CHR ''_'' # tl ?k1, v)"
      then show ?thesis using underscore_safe[OF replaceDots_nodot[of k]] by simp
    next
      assume a: "p \<in> set ?e1 \<and> fst p \<noteq> ?k1"
      then have "p \<noteq> (?k1, v)" by auto
      then show ?thesis using e1[of p] a by blast
    qed
  next
    case False
    then have "p \<in> set ?e1" using p dot by (simp add: renameKey_def)
    moreover have "safeKey ?k1"
      using False replaceDots_nodot[of k] by (simp add: safeKey_def)
    ultimately show ?thesis using e1[of p] by auto
  qed
next
  case nodot: False
  show ?thesis
  proof (cases "startsWithDollar k")
    case True
    then have "p \<in> set (deleteProp (setProp e (CHR ''_'' # tl k) v) k)"
      using p nodot by (simp add: renameKey_def)
    then have "p = (CHR ''_'' # tl k, v) \<or> (p \<in> set e \<and> fst p \<noteq> k)"
      using d by (auto simp: deleteProp_set setProp_set)
    then show ?thesis using underscore_safe[OF nodot] by auto
  next
    case False
    then have "p \<in> set e" using p nodot by (simp add: renameKey_def)
    moreover have "safeKey k" using False nodot by (simp add: safeKey_def)
    ultimately show ?thesis by auto
  qed
qed

lemma getProp_in: "getProp e k \<noteq> JUndefined \<Longrightarrow> (k, getProp e k) \<in> set e"
  by (auto simp: getProp_def split: option.splits dest: map_of_SomeD)

lemma getProp_distinct: "distinct (map fst e) \<Longrightarrow> (k, v) \<in> set e \<Longrightarrow> getProp e k = v"
  by (simp add: getProp_def)

lemma keysSafe_prim: "\<not> typeofObject v \<Longrightarrow> keysSafe v"
  by (cases v) auto

lemma wf_prim: "\<not> typeofObject v \<Longrightarrow> wf_json v"
  by (cases v) auto

lemma cleanKey_pending:
  assumes f: "cleans f" and inv: "pending (k # ks) e" and step: "cleanKey f e k = Some e'"
  shows "pending ks e'"
proof -
  let ?v = "getProp e k"
  from step obtain v' where v': "cleanChild f ?v = Some v'"
    and e': "e' = renameKey (if typeofObject ?v then setProp e k v' else e) k v'"
    by (auto simp: cleanKey_def Let_def split: option.splits)
  let ?e0 = "if typeofObject ?v then setProp e k v' else e"
  have d: "distinct (map fst e)" using inv by (simp add: pending_def)
  have wfv: "wf_json ?v"
  proof (cases "typeofObject ?v")
    case True
    then have "?v \<noteq> JUndefined" by auto
    then have "(k, ?v) \<in> set e" by (rule getProp_in)
    then show ?thesis using inv by (auto simp: pending_def)
  qed (rule wf_prim)
  have good: "keysSafe v' \<and> wf_json v'"
  proof (cases "typeofObject ?v")
    case True
    then have "f ?v = Some v'" using v' by (simp add: cleanChild_def)
    then show ?thesis using f wfv by (auto simp: cleans_def)
  next
    case False
    then have "v' = ?v" using v' by (simp add: cleanChild_def)
    then show ?thesis using False keysSafe_prim wf_prim by simp
  qed
  have d0: "distinct (map fst ?e0)" using d by (simp add: setProp_distinct)
  have e0: "q \<in> set ?e0 \<Longrightarrow> (q \<in> set e \<and> fst q \<noteq> k) \<or> q = (k, v')" for q
  proof (cases "typeofObject ?v")
    case True
    assume "q \<in> set ?e0"
    then show ?thesis using True d by (auto simp: setProp_set)
  next
    case False
    assume q: "q \<in> set ?e0"
    then have qe: "q \<in> set e" using False by simp
    have "v' = ?v" using v' False by (simp add: cleanChild_def)
    then show ?thesis using qe getProp_distinct[OF d, of k "snd q"] by (cases q) auto
  qed
  have d': "distinct (map fst e')" using d0 e' by (simp add: renameKey_distinct del: if_split)
  have "wf_json (snd p) \<and> (fst p \<in> set ks \<or> (safeKey (fst p) \<and> keysSafe (snd p)))"
    if p: "p \<in> set e'" for p
  proof -
    from renameKey_set[OF d0, of p k v'] p e'
    consider (old) "p \<in> set ?e0" "fst p \<noteq> k \<or> safeKey k" | (new) "snd p = v'" "safeKey (fst p)"
      by blast
    then show ?thesis
    proof cases
      case old
      from e0[OF old(1)] show ?thesis
      proof
        assume "p \<in> set e \<and> fst p \<noteq> k"
        then show ?thesis using inv by (auto simp: pending_def)
      next
        assume "p = (k, v')"
        then show ?thesis using old(2) good by auto
      qed
    next
      case new
      then show ?thesis using good by simp
    qed
  qed
  then show ?thesis using d' by (simp add: pending_def)
qed

lemma cleanKeys_pending:
  "cleans f \<Longrightarrow> pending ks e \<Longrightarrow> cleanKeys f ks e = Some e' \<Longrightarrow> pending [] e'"
proof (induction ks arbitrary: e)
  case Nil
  then show ?case by simp
next
  case (Cons k ks)
  then show ?case
    by (auto split: option.splits dest: cleanKey_pending)
qed

lemma cleanElems_safe:
  "cleans f \<Longrightarrow> list_all wf_json vs \<Longrightarrow> cleanElems f vs = Some vs' \<Longrightarrow>
   list_all keysSafe vs' \<and> list_all wf_json vs'"
proof (induction vs arbitrary: vs')
  case Nil
  then show ?case by simp
next
  case (Cons v vs)
  then show ?case
    by (auto simp: cleanChild_def cleans_def keysSafe_prim wf_prim split: option.splits if_splits)
qed

lemma cleanEntry_fuel_cleans: "cleans (cleanEntry_fuel n)"
proof (induction n)
  case 0
  show ?case by (simp add: cleans_def)
next
  case (Suc n)
  show ?case unfolding cleans_def
  proof (intro allI impI)
    fix x y
    assume wf: "wf_json x" and run: "cleanEntry_fuel (Suc n) x = Some y"
    show "keysSafe y \<and> wf_json y"
    proof (cases x)
      case (JObj e)
      then obtain e' where e': "cleanKeys (cleanEntry_fuel n) (map fst e) e = Some e'" and y: "y = JObj e'"
        using run by auto
      have "pending (map fst e) e" using wf JObj by (auto simp: pending_def list_all_iff)
      from cleanKeys_pending[OF Suc this e'] show ?thesis
        using y by (auto simp: pending_def list_all_iff)
    next
      case (JArr vs)
      then obtain vs' where "cleanElems (cleanEntry_fuel n) vs = Some vs'" and "y = JArr vs'"
        using run by auto
      then show ?thesis using cleanElems_safe[OF Suc, of vs vs'] wf JArr by simp
    qed (use run in auto)
  qed
qed


lemma fold_max_le: "fold max xs (a::nat) \<le> D \<longleftrightarrow> a \<le> D \<and> (\<forall>x\<in>set xs. x \<le> D)"
  by (induction xs arbitrary: a) auto

lemma setProp_subset: "set (setProp e k v) \<subseteq> insert (k, v) (set e)"
  by (induction e) auto

lemma move_values: "snd ` set (deleteProp (setProp e k1 v) k2) \<subseteq> insert v (snd ` set e)"
  using setProp_subset[of e k1 v] by (auto simp: deleteProp_set)

lemma renameKey_values: "snd ` set (renameKey e k v) \<subseteq> insert v (snd ` set e)"
proof -
  let ?e1 = "if CHR ''.'' \<in> set k then deleteProp (setProp e (replaceDots k) v) k else e"
  let ?k1 = "if CHR ''.'' \<in> set k then replaceDots k else k"
  have 1: "snd ` set ?e1 \<subseteq> insert v (snd ` set e)"
    using move_values[of e "replaceDots k" v k] by auto
  have "snd ` set (deleteProp (setProp ?e1 (CHR ''_'' # tl ?k1) v) ?k1) \<subseteq> insert v (snd ` set ?e1)"
    by (rule move_values)
  then have 2: "snd ` set (deleteProp (setProp ?e1 (CHR ''_'' # tl ?k1) v) ?k1) \<subseteq> insert v (snd ` set e)"
    using 1 by blast
  have "renameKey e k v =
        (if startsWithDollar ?k1 then deleteProp (setProp ?e1 (CHR ''_'' # tl ?k1) v) ?k1 else ?e1)"
    by (simp add: renameKey_def)
  then show ?thesis using 1 2 by presburger
qed

lemma getProp_cases: "getProp e k = JUndefined \<or> getProp e k \<in> snd ` set e"
  by (auto simp: getProp_def image_iff split: option.splits dest!: map_of_SomeD) force

lemma cleanChild_depth:
  assumes "shrinks n f" and "json_depth v < n"
  shows "\<exists>v'. cleanChild f v = Some v' \<and> json_depth v' \<le> json_depth v"
  using assms by (auto simp: cleanChild_def shrinks_def)

lemma cleanKey_depth:
  assumes f: "shrinks n f" and D: "D < n" and inv: "\<forall>x \<in> snd ` set e. json_depth x \<le> D"
  shows "\<exists>e'. cleanKey f e k = Some e' \<and> (\<forall>x \<in> snd ` set e'. json_depth x \<le> D)"
proof -
  let ?v = "getProp e k"
  have dv: "json_depth ?v \<le> D" using getProp_cases[of e k] inv by auto
  then obtain v' where v': "cleanChild f ?v = Some v'" and dv': "json_depth v' \<le> D"
    using cleanChild_depth[OF f, of ?v] D by force
  let ?e0 = "if typeofObject ?v then setProp e k v' else e"
  have "snd ` set ?e0 \<subseteq> insert v' (snd ` set e)"
    using setProp_subset[of e k v'] by auto
  then have "snd ` set (renameKey ?e0 k v') \<subseteq> insert v' (snd ` set e)"
    using renameKey_values[of ?e0 k v'] by blast
  then have "\<forall>x \<in> snd ` set (renameKey ?e0 k v'). json_depth x \<le> D"
    using inv dv' by blast
  then show ?thesis using v' by (simp add: cleanKey_def Let_def)
qed

lemma cleanKeys_depth:
  "shrinks n f \<Longrightarrow> D < n \<Longrightarrow> \<forall>x \<in> snd ` set e. json_depth x \<le> D \<Longrightarrow>
   \<exists>e'. cleanKeys f ks e = Some e' \<and> (\<forall>x \<in> snd ` set e'. json_depth x \<le> D)"
proof (induction ks arbitrary: e)
  case Nil
  then show ?case by simp
next
  case (Cons k ks)
  from cleanKey_depth[OF Cons.prems, of k] obtain e1
    where "cleanKey f e k = Some e1" and "\<forall>x \<in> snd ` set e1. json_depth x \<le> D" by blast
  then show ?case using Cons.IH[OF Cons.prems(1,2), of e1] by simp
qed

lemma cleanElems_depth:
  "shrinks n f \<Longrightarrow> D < n \<Longrightarrow> \<forall>x \<in> set vs. json_depth x \<le> D \<Longrightarrow>
   \<exists>vs'. cleanElems f vs = Some vs' \<and> (\<forall>x \<in> set vs'. json_depth x \<le> D)"
proof (induction vs)
  case Nil
  then show ?case by simp
next
  case (Cons v vs)
  then have "json_depth v < n" by simp
  from cleanChild_depth[OF Cons.prems(1) this] obtain v'
    where "cleanChild f v = Some v'" and "json_depth v' \<le> json_depth v" by blast
  then show ?case using Cons by force
qed

lemma cleanEntry_fuel_shrinks: "shrinks n (cleanEntry_fuel n)"
proof (induction n)
  case 0
  show ?case by (simp add: shrinks_def)
next
  case (Suc n)
  show ?case unfolding shrinks_def
  proof (intro allI impI)
    fix x assume d: "json_depth x < Suc n"
    show "\<exists>y. cleanEntry_fuel (Suc n) x = Some y \<and> json_depth y \<le> json_depth x"
    proof (cases x)
      case (JObj e)
      let ?D = "fold max (map (\<lambda>p. json_depth (snd p)) e) 0"
      have D: "?D < n" using d JObj by simp
      have "\<forall>x \<in> snd ` set e. json_depth x \<le> ?D"
        using fold_max_le[of "map (\<lambda>p. json_depth (snd p)) e" 0 ?D] by auto
      from cleanKeys_depth[OF Suc D this, of "map fst e"] obtain e'
        where e': "cleanKeys (cleanEntry_fuel n) (map fst e) e = Some e'"
          and b: "\<forall>x \<in> snd ` set e'. json_depth x \<le> ?D" by blast
      have "fold max (map (\<lambda>p. json_depth (snd p)) e') 0 \<le> ?D"
        using b by (subst fold_max_le) auto
      then show ?thesis using e' JObj by simp
    next
      case (JArr vs)
      let ?D = "fold max (map json_depth vs) 0"
      have D: "?D < n" using d JArr by simp
      have "\<forall>x \<in> set vs. json_depth x \<le> ?D"
        using fold_max_le[of "map json_depth vs" 0 ?D] by auto
      from cleanElems_depth[OF Suc D this] obtain vs'
        where vs': "cleanElems (cleanEntry_fuel n) vs = Some vs'"
          and b: "\<forall>x \<in> set vs'. json_depth x \<le> ?D" by blast
      have "fold max (map json_depth vs') 0 \<le> ?D"
        using b by (subst fold_max_le) auto
      then show ?thesis using vs' JArr by simp
    qed auto
  qed
qed

lemma cleanChild_mono: "extends f g \<Longrightarrow> cleanChild f v = Some v' \<Longrightarrow> cleanChild g v = Some v'"
  by (auto simp: cleanChild_def extends_def split: if_splits)

lemma cleanKey_mono: "extends f g \<Longrightarrow> cleanKey f e k = Some e' \<Longrightarrow> cleanKey g e k = Some e'"
  by (auto simp: cleanKey_def Let_def split: option.splits dest: cleanChild_mono)

lemma cleanKeys_mono: "extends f g \<Longrightarrow> cleanKeys f ks e = Some e' \<Longrightarrow> cleanKeys g ks e = Some e'"
  by (induction ks arbitrary: e) (auto split: option.splits dest: cleanKey_mono)

lemma cleanElems_mono: "extends f g \<Longrightarrow> cleanElems f vs = Some vs' \<Longrightarrow> cleanElems g vs = Some vs'"
  by (induction vs arbitrary: vs') (auto split: option.splits dest: cleanChild_mono)

lemma cleanEntry_fuel_Suc: "extends (cleanEntry_fuel n) (cleanEntry_fuel (Suc n))"
proof (induction n)
  case 0
  show ?case by (simp add: extends_def)
next
  case (Suc n)
  show ?case unfolding extends_def
  proof (intro allI impI)
    fix x y assume run: "cleanEntry_fuel (Suc n) x = Some y"
    show "cleanEntry_fuel (Suc (Suc n)) x = Some y"
    proof (cases x)
      case (JObj e)
      then obtain e' where "cleanKeys (cleanEntry_fuel n) (map fst e) e = Some e'" and y: "y = JObj e'"
        using run by auto
      then have "cleanKeys (cleanEntry_fuel (Suc n)) (map fst e) e = Some e'"
        by (intro cleanKeys_mono[OF Suc])
      then show ?thesis using JObj y by (subst cleanEntry_fuel.simps(2)) simp
    next
      case (JArr vs)
      then obtain vs' where "cleanElems (cleanEntry_fuel n) vs = Some vs'" and y: "y = JArr vs'"
        using run by auto
      then have "cleanElems (cleanEntry_fuel (Suc n)) vs = Some vs'"
        by (intro cleanElems_mono[OF Suc])
      then show ?thesis using JArr y by (subst cleanEntry_fuel.simps(2)) simp
    qed (use run in auto)
  qed
qed

lemma cleanEntry_fuel_mono:
  "n \<le> m \<Longrightarrow> cleanEntry_fuel n v = Some r \<Longrightarrow> cleanEntry_fuel m v = Some r"
proof (induction m)
  case 0
  then show ?case by simp
next
  case (Suc m)
  show ?case
  proof (cases "n = Suc m")
    case True
    then show ?thesis using Suc.prems by simp
  next
    case False
    then have "cleanEntry_fuel m v = Some r" using Suc by simp
    then show ?thesis using cleanEntry_fuel_Suc[of m] unfolding extends_def by blast
  qed
qed

lemma cleanEntry_fuel_enough:
  assumes "json_depth v < n"
  shows "cleanEntry_fuel n v = Some (cleanEntry v)"
proof -
  obtain r where r: "cleanEntry_fuel (Suc (json_depth v)) v = Some r"
    using cleanEntry_fuel_shrinks[of "Suc (json_depth v)"] unfolding shrinks_def by blast
  then have "cleanEntry v = r" by (simp add: cleanEntry_def)
  moreover have "cleanEntry_fuel n v = Some r"
    using cleanEntry_fuel_mono[OF _ r, of n] assms by simp
  ultimately show ?thesis by simp
qed

lemma setProp_same: "map_of e k = Some v \<Longrightarrow> setProp e k v = e"
  by (induction e) (auto split: if_splits)

lemma renameKey_safe: "safeKey k \<Longrightarrow> renameKey e k v = e"
  by (simp add: renameKey_def safeKey_def)

lemma cleanKey_fixed:
  assumes "safeKey k" and "typeofObject (getProp e k) \<Longrightarrow> f (getProp e k) = Some (getProp e k)"
  shows "cleanKey f e k = Some e"
proof (cases "typeofObject (getProp e k)")
  case True
  then have "getProp e k \<noteq> JUndefined" by auto
  then have "map_of e k = Some (getProp e k)"
    by (auto simp: getProp_def split: option.splits)
  then have "setProp e k (getProp e k) = e" by (rule setProp_same)
  then show ?thesis using True assms by (simp add: cleanKey_def cleanChild_def renameKey_safe)
next
  case False
  then show ?thesis using assms by (simp add: cleanKey_def cleanChild_def renameKey_safe)
qed

lemma cleanKeys_fixed:
  assumes "\<forall>k \<in> set ks. safeKey k \<and> (typeofObject (getProp e k) \<longrightarrow> f (getProp e k) = Some (getProp e k))"
  shows "cleanKeys f ks e = Some e"
  using assms by (induction ks) (auto simp: cleanKey_fixed)

lemma cleanElems_fixed:
  assumes "\<forall>v \<in> set vs. typeofObject v \<longrightarrow> f v = Some v"
  shows "cleanElems f vs = Some vs"
  using assms by (induction vs) (auto simp: cleanChild_def)

lemma keysSafe_fixed: "keysSafe v \<Longrightarrow> json_depth v < n \<Longrightarrow> cleanEntry_fuel n v = Some v"
proof (induction n arbitrary: v)
  case 0
  then show ?case by simp
next
  case (Suc n)
  show ?case
  proof (cases v)
    case (JObj e)
    have b: "\<forall>x \<in> set (map (\<lambda>p. json_depth (snd p)) e). x \<le> fold max (map (\<lambda>p. json_depth (snd p)) e) 0"
      using fold_max_le[of "map (\<lambda>p. json_depth (snd p)) e" 0] by blast
    have "safeKey k \<and> (typeofObject (getProp e k) \<longrightarrow>
            cleanEntry_fuel n (getProp e k) = Some (getProp e k))" if k: "k \<in> set (map fst e)" for k
    proof -
      from k obtain x where x: "map_of e k = Some x"
        by (metis map_of_eq_None_iff not_Some_eq set_map)
      then have m: "(k, x) \<in> set e" by (rule map_of_SomeD)
      then have "safeKey k" "keysSafe x" using Suc.prems(1) JObj by (auto simp: list_all_iff)
      moreover have "json_depth x < n" using m b Suc.prems(2) JObj by force
      ultimately show ?thesis using x Suc.IH[of x] by (simp add: getProp_def)
    qed
    then have "cleanKeys (cleanEntry_fuel n) (map fst e) e = Some e"
      by (intro cleanKeys_fixed) blast
    then show ?thesis using JObj by simp
  next
    case (JArr vs)
    have b: "\<forall>x \<in> set (map json_depth vs). x \<le> fold max (map json_depth vs) 0"
      using fold_max_le[of "map json_depth vs" 0] by blast
    have "\<forall>x \<in> set vs. typeofObject x \<longrightarrow> cleanEntry_fuel n x = Some x"
    proof (intro ballI impI)
      fix x assume x: "x \<in> set vs"
      then have "keysSafe x" using Suc.prems(1) JArr by (simp add: list_all_iff)
      moreover have "json_depth x < n" using x b Suc.prems(2) JArr by force
      ultimately show "cleanEntry_fuel n x = Some x" by (rule Suc.IH)
    qed
    then have "cleanElems (cleanEntry_fuel n) vs = Some vs" by (rule cleanElems_fixed)
    then show ?thesis using JArr by simp
  qed auto
qed

lemma cleanEntry_keysSafe: "wf_json v \<Longrightarrow> keysSafe (cleanEntry v) \<and> wf_json (cleanEntry v)"
  using cleanEntry_fuel_cleans[of "Suc (json_depth v)"] cleanEntry_fuel_enough[of v "Suc (json_depth v)"]
  by (simp add: cleans_def)

lemma cleanEntry_fixed: "keysSafe v \<Longrightarrow> cleanEntry v = v"
  using keysSafe_fixed[of v "Suc (json_depth v)"] by (simp add: cleanEntry_def)

lemma cleanEntry_idem: "wf_json v \<Longrightarrow> cleanEntry (cleanEntry v) = cleanEntry v"
  by (simp add: cleanEntry_keysSafe cleanEntry_fixed)



lemmas clean_eval = cleanEntry_def cleanKey_def cleanChild_def renameKey_def getProp_def
  deleteProp_def replaceDots_def startsWithDollar_def

section \<open>Claims about the sanitizer\<close>

text \<open>
  C4. The claim: sanitization neither loses nor duplicates values, each value of the input
  is present exactly once in the output. The code moves a value with
  \<open>entry[newKey] = value; delete entry[key]\<close> and does not look whether \<open>newKey\<close> is
  already a key of the entry. On the record \<open>{"a.b": 1, "a_b": 2}\<close> the first iteration
  overwrites the value under \<open>a_b\<close>: the result is \<open>{"a_b": 1}\<close>, and the value 2 is lost.
\<close>

theorem cleanEntry_collision_loses_value:
  "wf_json collidingEntry \<and> cleanEntry collidingEntry = JObj [(''a_b'', JNum 1)]"
  by (simp add: collidingEntry_def clean_eval)

text \<open>
  C5. For every nested record, after sanitization no key at any nesting depth contains a
  dot or begins with a dollar sign. The recursion of \<open>cleanEntry\<close> ends on every record:
  each bound above the depth of the record gives the same result.
\<close>

theorem cleanEntry_keys_safe:
  assumes "wf_json entry"
  shows "(\<forall>n > json_depth entry. cleanEntry_fuel n entry = Some (cleanEntry entry)) \<and>
         keysSafe (cleanEntry entry)"
  using assms cleanEntry_fuel_enough cleanEntry_keysSafe by blast

theorem cleanEntry_keys_safe_witness:
  "wf_json nestedEntry \<and>
   cleanEntry_fuel 5 nestedEntry = Some (cleanEntry nestedEntry) \<and>
   keysSafe (cleanEntry nestedEntry)"
proof -
  have wf: "wf_json nestedEntry" by (simp add: nestedEntry_def)
  have d: "json_depth nestedEntry < 5" by (simp add: nestedEntry_def)
  from cleanEntry_keys_safe[OF wf] d wf show ?thesis by blast
qed

text \<open>
  C6. Sanitization is idempotent: for every record, applying \<open>cleanEntry\<close> twice yields
  the same record as applying it once.
\<close>

theorem cleanEntry_idempotent:
  assumes "wf_json entry"
  shows "(\<forall>n > json_depth entry. cleanEntry_fuel n entry = Some (cleanEntry entry)) \<and>
         cleanEntry (cleanEntry entry) = cleanEntry entry"
  using assms cleanEntry_fuel_enough cleanEntry_idem by blast

theorem cleanEntry_idempotent_witness:
  "wf_json dottedEntry \<and>
   cleanEntry dottedEntry =
     JObj [(''first_name'', JStr ''x''), (''_set'', JObj [(''a_b_c'', JNum 7)])] \<and>
   cleanEntry (cleanEntry dottedEntry) = cleanEntry dottedEntry"
proof -
  have wf: "wf_json dottedEntry" by (simp add: dottedEntry_def)
  have v: "cleanEntry dottedEntry =
      JObj [(''first_name'', JStr ''x''), (''_set'', JObj [(''a_b_c'', JNum 7)])]"
    by (simp add: dottedEntry_def clean_eval)
  from cleanEntry_idempotent[OF wf] wf v show ?thesis by blast
qed

section \<open>Properties of the enumeration\<close>

lemma capReached_pos: "0 < N \<Longrightarrow> capReached page (Some N) = (nat N \<le> page)"
  by (auto simp: capReached_def)

lemma capReached_off: "\<not> (\<exists>N. cap = Some N \<and> 0 < N) \<Longrightarrow> capReached page cap = False"
  by (auto simp: capReached_def split: option.splits)

lemma upt_concat_step:
  "page < m \<Longrightarrow> concat (map f [page..<m]) = f page @ concat (map f [Suc page..<m])"
  by (simp add: upt_conv_Cons)

lemma getAllNames_rec_capped:
  assumes "0 < N"
  shows "page \<le> nat N \<Longrightarrow>
    \<exists>r. getAllNames_rec fetch page prior (Some N) = Some r \<and>
      (\<forall>ns. r = Inr ns \<longrightarrow>
        (\<exists>m. page \<le> m \<and> m \<le> nat N \<and>
             ns = prior @ concat (map (\<lambda>p. pageNames fetch (NamesPage p)) [page..<m])))"
proof (induction "nat N - page" arbitrary: page prior)
  case 0
  then have "capReached page (Some N)" using assms by (simp add: capReached_pos)
  then have "getAllNames_rec fetch page prior (Some N) = Some (Inr prior)"
    by (subst getAllNames_rec.simps) simp
  then show ?case using 0 by (intro exI[of _ "Inr prior"]) auto
next
  case (Suc d)
  then have lt: "page < nat N" by simp
  then have nc: "\<not> capReached page (Some N)" using assms by (simp add: capReached_pos)
  show ?case
  proof (cases "fetch (NamesPage page)")
    case (Inl err)
    then have "getAllNames_rec fetch page prior (Some N) = Some (Inl err)"
      using nc by (subst getAllNames_rec.simps) simp
    then show ?thesis by simp
  next
    case (Inr names)
    show ?thesis
    proof (cases "names = []")
      case True
      then have "getAllNames_rec fetch page prior (Some N) = Some (Inr prior)"
        using nc Inr by (subst getAllNames_rec.simps) simp
      then show ?thesis using lt by (intro exI[of _ "Inr prior"]) auto
    next
      case False
      then have step: "getAllNames_rec fetch page prior (Some N) =
          getAllNames_rec fetch (Suc page) (prior @ names) (Some N)"
        using nc Inr by (subst getAllNames_rec.simps) simp
      have "d = nat N - Suc page" "Suc page \<le> nat N" using Suc.hyps(2) lt by auto
      from Suc.hyps(1)[OF this, of "prior @ names"] obtain r where
        r: "getAllNames_rec fetch (Suc page) (prior @ names) (Some N) = Some r" and
        ns: "\<forall>ns. r = Inr ns \<longrightarrow>
          (\<exists>m. Suc page \<le> m \<and> m \<le> nat N \<and>
             ns = (prior @ names) @ concat (map (\<lambda>p. pageNames fetch (NamesPage p)) [Suc page..<m]))"
        by blast
      have pn: "pageNames fetch (NamesPage page) = names" using Inr by (simp add: pageNames_def)
      have "\<exists>m. page \<le> m \<and> m \<le> nat N \<and>
             ns = prior @ concat (map (\<lambda>p. pageNames fetch (NamesPage p)) [page..<m])"
        if "r = Inr ns" for ns
      proof -
        from ns that obtain m where m: "Suc page \<le> m" "m \<le> nat N"
          "ns = (prior @ names) @ concat (map (\<lambda>p. pageNames fetch (NamesPage p)) [Suc page..<m])"
          by blast
        have "page < m" using m(1) by simp
        from upt_concat_step[OF this, of "\<lambda>p. pageNames fetch (NamesPage p)"] m pn
        show ?thesis by (intro exI[of _ m]) simp
      qed
      then show ?thesis using step r by simp
    qed
  qed
qed

lemma getAllNames_rec_uncapped:
  assumes off: "\<not> (\<exists>N. cap = Some N \<and> 0 < N)"
    and pages: "\<forall>p<k. pageNames fetch (NamesPage p) \<noteq> []"
    and last: "fetch (NamesPage k) = Inr []"
  shows "page \<le> k \<Longrightarrow>
    getAllNames_rec fetch page prior cap =
      Some (Inr (prior @ concat (map (\<lambda>p. pageNames fetch (NamesPage p)) [page..<k])))"
proof (induction "k - page" arbitrary: page prior)
  case 0
  then have "page = k" by simp
  then show ?case using last capReached_off[OF off]
    by (subst getAllNames_rec.simps) simp
next
  case (Suc d)
  then have lt: "page < k" by simp
  then have ne: "pageNames fetch (NamesPage page) \<noteq> []" using pages by simp
  then obtain names where f: "fetch (NamesPage page) = Inr names" and n: "names \<noteq> []"
    by (auto simp: pageNames_def split: sum.splits)
  have step: "getAllNames_rec fetch page prior cap =
          getAllNames_rec fetch (Suc page) (prior @ names) cap"
    using f n capReached_off[OF off] by (subst getAllNames_rec.simps) simp
  have "d = k - Suc page" "Suc page \<le> k" using Suc.hyps(2) lt by auto
  from Suc.hyps(1)[OF this, of "prior @ names"] step
    upt_concat_step[OF lt, of "\<lambda>p. pageNames fetch (NamesPage p)"] f
  show ?case by (simp add: pageNames_def)
qed

lemma getAllSubdomains_rec_capped:
  assumes "0 < N"
  shows "page \<le> nat N \<Longrightarrow>
    \<exists>r. getAllSubdomains_rec fetch page prior (Some N) = Some r \<and>
      (\<forall>ns. r = Inr ns \<longrightarrow>
        (\<exists>m. page \<le> m \<and> m \<le> nat N \<and>
             ns = prior @ concat (map (\<lambda>p. pageNames fetch (SubdomainsPage p)) [page..<m])))"
proof (induction "nat N - page" arbitrary: page prior)
  case 0
  then have "capReached page (Some N)" using assms by (simp add: capReached_pos)
  then have "getAllSubdomains_rec fetch page prior (Some N) = Some (Inr prior)"
    by (subst getAllSubdomains_rec.simps) simp
  then show ?case using 0 by (intro exI[of _ "Inr prior"]) auto
next
  case (Suc d)
  then have lt: "page < nat N" by simp
  then have nc: "\<not> capReached page (Some N)" using assms by (simp add: capReached_pos)
  show ?case
  proof (cases "fetch (SubdomainsPage page)")
    case (Inl err)
    then have "getAllSubdomains_rec fetch page prior (Some N) = Some (Inl err)"
      using nc by (subst getAllSubdomains_rec.simps) simp
    then show ?thesis by simp
  next
    case (Inr names)
    show ?thesis
    proof (cases "names = []")
      case True
      then have "getAllSubdomains_rec fetch page prior (Some N) = Some (Inr prior)"
        using nc Inr by (subst getAllSubdomains_rec.simps) simp
      then show ?thesis using lt by (intro exI[of _ "Inr prior"]) auto
    next
      case False
      then have step: "getAllSubdomains_rec fetch page prior (Some N) =
          getAllSubdomains_rec fetch (Suc page) (prior @ names) (Some N)"
        using nc Inr by (subst getAllSubdomains_rec.simps) simp
      have "d = nat N - Suc page" "Suc page \<le> nat N" using Suc.hyps(2) lt by auto
      from Suc.hyps(1)[OF this, of "prior @ names"] obtain r where
        r: "getAllSubdomains_rec fetch (Suc page) (prior @ names) (Some N) = Some r" and
        ns: "\<forall>ns. r = Inr ns \<longrightarrow>
          (\<exists>m. Suc page \<le> m \<and> m \<le> nat N \<and>
             ns = (prior @ names) @ concat (map (\<lambda>p. pageNames fetch (SubdomainsPage p)) [Suc page..<m]))"
        by blast
      have pn: "pageNames fetch (SubdomainsPage page) = names" using Inr by (simp add: pageNames_def)
      have "\<exists>m. page \<le> m \<and> m \<le> nat N \<and>
             ns = prior @ concat (map (\<lambda>p. pageNames fetch (SubdomainsPage p)) [page..<m])"
        if "r = Inr ns" for ns
      proof -
        from ns that obtain m where m: "Suc page \<le> m" "m \<le> nat N"
          "ns = (prior @ names) @ concat (map (\<lambda>p. pageNames fetch (SubdomainsPage p)) [Suc page..<m])"
          by blast
        have "page < m" using m(1) by simp
        from upt_concat_step[OF this, of "\<lambda>p. pageNames fetch (SubdomainsPage p)"] m pn
        show ?thesis by (intro exI[of _ m]) simp
      qed
      then show ?thesis using step r by simp
    qed
  qed
qed

lemma getAllSubdomains_rec_uncapped:
  assumes off: "\<not> (\<exists>N. cap = Some N \<and> 0 < N)"
    and pages: "\<forall>p<k. pageNames fetch (SubdomainsPage p) \<noteq> []"
    and last: "fetch (SubdomainsPage k) = Inr []"
  shows "page \<le> k \<Longrightarrow>
    getAllSubdomains_rec fetch page prior cap =
      Some (Inr (prior @ concat (map (\<lambda>p. pageNames fetch (SubdomainsPage p)) [page..<k])))"
proof (induction "k - page" arbitrary: page prior)
  case 0
  then have "page = k" by simp
  then show ?case using last capReached_off[OF off]
    by (subst getAllSubdomains_rec.simps) simp
next
  case (Suc d)
  then have lt: "page < k" by simp
  then have ne: "pageNames fetch (SubdomainsPage page) \<noteq> []" using pages by simp
  then obtain names where f: "fetch (SubdomainsPage page) = Inr names" and n: "names \<noteq> []"
    by (auto simp: pageNames_def split: sum.splits)
  have step: "getAllSubdomains_rec fetch page prior cap =
          getAllSubdomains_rec fetch (Suc page) (prior @ names) cap"
    using f n capReached_off[OF off] by (subst getAllSubdomains_rec.simps) simp
  have "d = k - Suc page" "Suc page \<le> k" using Suc.hyps(2) lt by auto
  from Suc.hyps(1)[OF this, of "prior @ names"] step
    upt_concat_step[OF lt, of "\<lambda>p. pageNames fetch (SubdomainsPage p)"] f
  show ?case by (simp add: pageNames_def)
qed

section \<open>Claims about the enumeration\<close>

text \<open>
  C1, as stated: enumeration with page cap \<open>N\<close> returns names only from pages \<open>0..N-1\<close>,
  and returns the empty sequence for a page cap of 0. The second half fails: the guard
  \<open>pagesToFetch && pagesToFetch > 0 && page >= pagesToFetch\<close> switches the cap off when
  it is 0, so a service with one name on page 0 gives that name.
\<close>

theorem enumeration_cap_zero_counterexample:
  "getAllNames onePageService (Some 0) = Some (Inr [''a'']) \<and>
   getAllSubdomains onePageService (Some 0) = Some (Inr [''a''])"
proof -
  have "getAllNames_rec onePageService 0 [] (Some 0) = Some (Inr [''a''])"
    apply (subst getAllNames_rec.simps, simp add: capReached_def onePageService_def)
    apply (subst getAllNames_rec.simps, simp add: capReached_def onePageService_def)
    done
  moreover have "getAllSubdomains_rec onePageService 0 [] (Some 0) = Some (Inr [''a''])"
    apply (subst getAllSubdomains_rec.simps, simp add: capReached_def onePageService_def)
    apply (subst getAllSubdomains_rec.simps, simp add: capReached_def onePageService_def)
    done
  ultimately show ?thesis by (simp add: getAllNames_def getAllSubdomains_def)
qed

text \<open>
  C1, amended. For every page cap \<open>N > 0\<close>, each enumeration settles, and when it is
  fulfilled its result is the concatenation of the pages \<open>0..m-1\<close> for some \<open>m \<le> N\<close>: it
  holds names only from pages \<open>0..N-1\<close>. For a page cap of 0 the cap is off: when page \<open>k\<close>
  is the first empty page, the result is the concatenation of the pages \<open>0..k-1\<close>.
\<close>

theorem enumeration_page_cap:
  "(0 < N \<longrightarrow>
      (\<exists>r. getAllNames fetch (Some N) = Some r \<and>
         (\<forall>ns. r = Inr ns \<longrightarrow>
            (\<exists>m \<le> nat N. ns = concat (map (\<lambda>p. pageNames fetch (NamesPage p)) [0..<m])))) \<and>
      (\<exists>r. getAllSubdomains fetch (Some N) = Some r \<and>
         (\<forall>ns. r = Inr ns \<longrightarrow>
            (\<exists>m \<le> nat N. ns = concat (map (\<lambda>p. pageNames fetch (SubdomainsPage p)) [0..<m]))))) \<and>
   ((\<forall>p<k. pageNames fetch (NamesPage p) \<noteq> []) \<and> fetch (NamesPage k) = Inr [] \<longrightarrow>
      getAllNames fetch (Some 0) =
        Some (Inr (concat (map (\<lambda>p. pageNames fetch (NamesPage p)) [0..<k])))) \<and>
   ((\<forall>p<j. pageNames fetch (SubdomainsPage p) \<noteq> []) \<and> fetch (SubdomainsPage j) = Inr [] \<longrightarrow>
      getAllSubdomains fetch (Some 0) =
        Some (Inr (concat (map (\<lambda>p. pageNames fetch (SubdomainsPage p)) [0..<j]))))"
proof (intro conjI impI)
  assume N: "0 < N"
  from getAllNames_rec_capped[OF N, of 0 fetch "[]"]
  show "\<exists>r. getAllNames fetch (Some N) = Some r \<and>
         (\<forall>ns. r = Inr ns \<longrightarrow>
            (\<exists>m \<le> nat N. ns = concat (map (\<lambda>p. pageNames fetch (NamesPage p)) [0..<m])))"
    unfolding getAllNames_def by simp
  from getAllSubdomains_rec_capped[OF N, of 0 fetch "[]"]
  show "\<exists>r. getAllSubdomains fetch (Some N) = Some r \<and>
         (\<forall>ns. r = Inr ns \<longrightarrow>
            (\<exists>m \<le> nat N. ns = concat (map (\<lambda>p. pageNames fetch (SubdomainsPage p)) [0..<m])))"
    unfolding getAllSubdomains_def by simp
next
  assume "(\<forall>p<k. pageNames fetch (NamesPage p) \<noteq> []) \<and> fetch (NamesPage k) = Inr []"
  then show "getAllNames fetch (Some 0) =
        Some (Inr (concat (map (\<lambda>p. pageNames fetch (NamesPage p)) [0..<k])))"
    using getAllNames_rec_uncapped[of "Some 0" k fetch 0 "[]"] by (simp add: getAllNames_def)
next
  assume "(\<forall>p<j. pageNames fetch (SubdomainsPage p) \<noteq> []) \<and> fetch (SubdomainsPage j) = Inr []"
  then show "getAllSubdomains fetch (Some 0) =
        Some (Inr (concat (map (\<lambda>p. pageNames fetch (SubdomainsPage p)) [0..<j])))"
    using getAllSubdomains_rec_uncapped[of "Some 0" j fetch 0 "[]"] by (simp add: getAllSubdomains_def)
qed

theorem enumeration_page_cap_witness:
  "getAllNames twoPageService (Some 1) \<noteq> None \<and>
   getAllSubdomains twoPageService (Some 1) \<noteq> None \<and>
   getAllNames twoPageService (Some 0) = Some (Inr [''a'', ''b'', ''c'']) \<and>
   getAllSubdomains twoPageService (Some 0) = Some (Inr [''s''])"
proof -
  have n: "(\<forall>p<2. pageNames twoPageService (NamesPage p) \<noteq> []) \<and>
           twoPageService (NamesPage 2) = Inr []"
    by (simp add: twoPageService_def pageNames_def less_Suc_eq numeral_2_eq_2)
  have s: "(\<forall>p<1. pageNames twoPageService (SubdomainsPage p) \<noteq> []) \<and>
           twoPageService (SubdomainsPage 1) = Inr []"
    by (simp add: twoPageService_def pageNames_def)
  have c: "concat (map (\<lambda>p. pageNames twoPageService (NamesPage p)) [0..<2]) = [''a'', ''b'', ''c'']"
          "concat (map (\<lambda>p. pageNames twoPageService (SubdomainsPage p)) [0..<1]) = [''s'']"
    by (simp_all add: twoPageService_def pageNames_def upt_rec numeral_2_eq_2)
  from enumeration_page_cap[of 1 twoPageService 2 1] n s c
  show ?thesis by auto
qed

section \<open>Properties of the batched resolution\<close>

lemma collect_fields:
  "batch (foldl collectResult st rs) = batch st"
  "events (foldl collectResult st rs) = events st"
  "ix (foldl collectResult st rs) = ix st"
  by (induction rs arbitrary: st; simp add: collectResult_def split: option.splits)+

lemma runBatch_fields:
  "batch (runBatch l st) = batch st"
  "events (runBatch l st) = events st @ [LookupBatch (batch st)]"
  by (simp_all add: runBatch_def collect_fields)

lemma fetchName_None: "fetchName l n = None \<longleftrightarrow> \<not> isResolved (l n)"
  by (cases "l n") (simp_all add: fetchName_def lookupProfileWithTimeout_def)

lemma fetchName_key: "fetchName l n = Some r \<Longrightarrow> key r = n"
  by (auto simp: fetchName_def lookupProfileWithTimeout_def split: lookup.splits sum.splits)

lemma collect_results:
  "map fqu (profiles (foldl collectResult st (map (fetchName l) ns))) =
     map fqu (profiles st) @ map JStr (filter (\<lambda>n. isResolved (l n)) ns) \<and>
   errorCount (foldl collectResult st (map (fetchName l) ns)) =
     errorCount st + length (filter (\<lambda>n. \<not> isResolved (l n)) ns)"
proof (induction ns arbitrary: st)
  case Nil
  show ?case by simp
next
  case (Cons n ns)
  show ?case
  proof (cases "fetchName l n")
    case None
    then have "\<not> isResolved (l n)" by (simp add: fetchName_None)
    then show ?thesis using None Cons[of "st\<lparr>errorCount := errorCount st + 1\<rparr>"]
      by (simp add: collectResult_def)
  next
    case (Some r)
    then have "isResolved (l n)" using fetchName_None[of l n] by simp
    then show ?thesis
      using Some fetchName_key[OF Some]
        Cons[of "st\<lparr>profiles := profiles st @ [\<lparr>profile = value' r, fqu = JStr (key r)\<rparr>]\<rparr>"]
      by (simp add: collectResult_def)
  qed
qed

lemma runBatch_results:
  "map fqu (profiles (runBatch l st)) =
     map fqu (profiles st) @ map JStr (filter (\<lambda>n. isResolved (l n)) (batch st))"
  "errorCount (runBatch l st) =
     errorCount st + length (filter (\<lambda>n. \<not> isResolved (l n)) (batch st))"
  using collect_results[of "st\<lparr>events := events st @ [LookupBatch (batch st)]\<rparr>" l "batch st"]
  by (simp_all add: runBatch_def)

lemma fetchLoop_snoc:
  "fetchLoop l d B (ns @ [n]) = fetchStep l d B (fetchLoop l d B ns) n"
  by (simp add: fetchLoop_def)

lemma fetchLoop_results:
  "map fqu (profiles (fetchLoop l d B ns)) @
     map JStr (filter (\<lambda>n. isResolved (l n)) (batch (fetchLoop l d B ns))) =
     map JStr (filter (\<lambda>n. isResolved (l n)) ns) \<and>
   errorCount (fetchLoop l d B ns) +
     length (filter (\<lambda>n. \<not> isResolved (l n)) (batch (fetchLoop l d B ns))) =
     length (filter (\<lambda>n. \<not> isResolved (l n)) ns)"
proof (induction ns rule: rev_induct)
  case Nil
  show ?case by (simp add: fetchLoop_def)
next
  case (snoc n ns)
  then show ?case
    by (auto simp: fetchLoop_snoc fetchStep_def Let_def runBatch_results runBatch_fields)
qed

lemma fetchNames_results:
  assumes "fetchNames l d ns B = (ps, ec, evs)"
  shows "map fqu ps = map JStr (filter (\<lambda>n. isResolved (l n)) ns)"
    and "ec = length (filter (\<lambda>n. \<not> isResolved (l n)) ns)"
  using assms fetchLoop_results[of l d B ns]
  by (auto simp: fetchNames_def Let_def runBatch_results split: if_splits)

lemma fetchLoop_shape:
  assumes "0 < B" and "ns \<noteq> []"
  shows "length (batch (fetchLoop l d (int B) ns)) = (length ns - 1) mod B + 1 \<and>
         length (filter isDelay (events (fetchLoop l d (int B) ns))) = (length ns - 1) div B"
  using assms(2)
proof (induction ns rule: rev_induct)
  case Nil
  then show ?case by simp
next
  case (snoc n ns)
  show ?case
  proof (cases "ns = []")
    case True
    then show ?thesis using assms(1)
      by (simp add: fetchLoop_def fetchStep_def Let_def)
  next
    case False
    then obtain m where m: "length ns = Suc m" by (cases ns) auto
    from snoc.IH[OF False] m
    have b: "length (batch (fetchLoop l d (int B) ns)) = m mod B + 1"
      and e: "length (filter isDelay (events (fetchLoop l d (int B) ns))) = m div B" by simp_all
    have lt: "m mod B < B" using assms(1) by simp
    show ?thesis
    proof (cases "Suc (m mod B) = B")
      case True
      then show ?thesis using b e m assms(1)
        by (simp add: fetchLoop_snoc fetchStep_def Let_def runBatch_fields mod_Suc div_Suc)
    next
      case False
      then have "\<not> int B \<le> int (length (batch (fetchLoop l d (int B) ns)))" using b lt by simp
      then show ?thesis using b e m False
        by (simp add: fetchLoop_snoc fetchStep_def Let_def mod_Suc div_Suc)
    qed
  qed
qed

lemma delays_formula:
  assumes "0 < (B::nat)" and "0 < M"
  shows "(M - 1) div B = (if M mod B = 0 then M div B - 1 else M div B)"
proof -
  obtain m where m: "M = Suc m" using assms(2) by (cases M) auto
  show ?thesis using assms(1) unfolding m
    by (auto simp: div_Suc mod_Suc split: if_splits)
qed

lemma fetchNames_delays:
  assumes B: "0 < B" and run: "fetchNames l d ns (int B) = (ps, ec, evs)"
  shows "length (filter isDelay evs) =
           (if 0 < length ns \<and> length ns mod B = 0 then length ns div B - 1 else length ns div B)"
    and "evs \<noteq> [] \<longrightarrow> \<not> isDelay (last evs)"
    and "ns \<noteq> [] \<longrightarrow> (\<exists>b. b \<noteq> [] \<and> last evs = LookupBatch b)"
proof -
  show "length (filter isDelay evs) =
           (if 0 < length ns \<and> length ns mod B = 0 then length ns div B - 1 else length ns div B)"
  proof (cases "ns = []")
    case True
    then show ?thesis using run by (simp add: fetchNames_def fetchLoop_def)
  next
    case False
    from fetchLoop_shape[OF B False, of l d] run
    have "length (filter isDelay evs) = (length ns - 1) div B"
      by (auto simp: fetchNames_def Let_def runBatch_fields)
    then show ?thesis using delays_formula[OF B, of "length ns"] False by simp
  qed
  show "ns \<noteq> [] \<longrightarrow> (\<exists>b. b \<noteq> [] \<and> last evs = LookupBatch b)"
  proof
    assume ne: "ns \<noteq> []"
    from fetchLoop_shape[OF B ne, of l d] have "batch (fetchLoop l d (int B) ns) \<noteq> []" by auto
    then show "\<exists>b. b \<noteq> [] \<and> last evs = LookupBatch b"
      using run by (auto simp: fetchNames_def Let_def runBatch_fields)
  qed
  then show "evs \<noteq> [] \<longrightarrow> \<not> isDelay (last evs)"
    using run by (cases "ns = []") (auto simp: fetchNames_def fetchLoop_def)
qed

lemmas fetch_eval = fetchNames_def fetchLoop_def fetchStep_def runBatch_def collectResult_def
  fetchName_def lookupProfileWithTimeout_def bTimesOut_def

section \<open>Claims about the batched resolution\<close>

text \<open>
  C2. For every batch size \<open>B > 0\<close> and every list of \<open>M\<close> names, \<open>fetchNames\<close> issues
  exactly \<open>M div B - 1\<close> delays when \<open>M\<close> is a positive multiple of \<open>B\<close>, and exactly
  \<open>M div B\<close> delays otherwise; no delay follows the final batch.
\<close>

theorem fetchNames_delay_count:
  assumes "0 < B" and "fetchNames lookupProfile d names (int B) = (ps, ec, evs)"
  shows "length (filter isDelay evs) =
           (if 0 < length names \<and> length names mod B = 0
            then length names div B - 1 else length names div B) \<and>
         (evs \<noteq> [] \<longrightarrow> \<not> isDelay (last evs))"
  using fetchNames_delays(1,2)[OF assms] by simp

theorem fetchNames_delay_count_witness:
  "fetchNames bTimesOut 0 [''a'', ''b'', ''c'', ''d''] (int 2) =
     ([\<lparr>profile = JObj [], fqu = JStr ''a''\<rparr>, \<lparr>profile = JObj [], fqu = JStr ''c''\<rparr>,
       \<lparr>profile = JObj [], fqu = JStr ''d''\<rparr>],
      1,
      [LookupBatch [''a'', ''b''], Delay 0, LookupBatch [''c'', ''d'']]) \<and>
   length (filter isDelay [LookupBatch [''a'', ''b''], Delay 0, LookupBatch [''c'', ''d'']]) = 1"
proof -
  have B: "0 < (2::nat)" by simp
  have run: "fetchNames bTimesOut 0 [''a'', ''b'', ''c'', ''d''] (int 2) =
     ([\<lparr>profile = JObj [], fqu = JStr ''a''\<rparr>, \<lparr>profile = JObj [], fqu = JStr ''c''\<rparr>,
       \<lparr>profile = JObj [], fqu = JStr ''d''\<rparr>],
      1,
      [LookupBatch [''a'', ''b''], Delay 0, LookupBatch [''c'', ''d'']])"
    by (simp add: fetch_eval clean_eval)
  from fetchNames_delay_count[OF B run] run show ?thesis by simp
qed

text \<open>
  C3. For every list of names, a name whose profile lookup times out or fails yields no
  entry in the output of \<open>fetchNames\<close> and adds one to the returned error count; the
  failure does not reach the caller (\<open>fetchName\<close> returns \<open>null\<close>, and \<open>fetchNames\<close> has
  a result on every input). Resolving \<open>["a","b","c"]\<close> where only \<open>b\<close> fails yields
  exactly two entries and an error count of 1.
\<close>

theorem fetchNames_failed_lookups:
  assumes "fetchNames lookupProfile d names batchSize = (ps, ec, evs)"
  shows "map fqu ps = map JStr (filter (\<lambda>n. isResolved (lookupProfile n)) names) \<and>
         ec = length (filter (\<lambda>n. \<not> isResolved (lookupProfile n)) names) \<and>
         (\<forall>n. fetchName lookupProfile n = None \<longleftrightarrow> \<not> isResolved (lookupProfile n)) \<and>
         (names = [''a'', ''b'', ''c''] \<and> isResolved (lookupProfile ''a'') \<and>
          \<not> isResolved (lookupProfile ''b'') \<and> isResolved (lookupProfile ''c'')
            \<longrightarrow> length ps = 2 \<and> ec = 1)"
proof -
  have 1: "map fqu ps = map JStr (filter (\<lambda>n. isResolved (lookupProfile n)) names)"
    and 2: "ec = length (filter (\<lambda>n. \<not> isResolved (lookupProfile n)) names)"
    using fetchNames_results[OF assms] by simp_all
  have "length ps = length (filter (\<lambda>n. isResolved (lookupProfile n)) names)"
    using arg_cong[OF 1, of length] by simp
  then show ?thesis using 1 2 fetchName_None by auto
qed

theorem fetchNames_failed_lookups_witness:
  "fetchNames bTimesOut 0 [''a'', ''b'', ''c''] 5 =
     ([\<lparr>profile = JObj [], fqu = JStr ''a''\<rparr>, \<lparr>profile = JObj [], fqu = JStr ''c''\<rparr>],
      1, [LookupBatch [''a'', ''b'', ''c'']]) \<and>
   fetchName bTimesOut ''b'' = None \<and>
   length [\<lparr>profile = JObj [], fqu = JStr ''a''\<rparr>, \<lparr>profile = JObj [], fqu = JStr ''c''\<rparr>] = 2"
proof -
  have run: "fetchNames bTimesOut 0 [''a'', ''b'', ''c''] 5 =
     ([\<lparr>profile = JObj [], fqu = JStr ''a''\<rparr>, \<lparr>profile = JObj [], fqu = JStr ''c''\<rparr>],
      1, [LookupBatch [''a'', ''b'', ''c'']])"
    by (simp add: fetch_eval clean_eval)
  have "\<not> isResolved (bTimesOut ''b'')" by (simp add: bTimesOut_def)
  with fetchNames_failed_lookups[OF run] run show ?thesis by simp
qed

section \<open>Properties of the username derivation and the index builder\<close>

lemma endsWith_append: "endsWith (p @ s) s"
  by (simp add: endsWith_def)

lemma endsWith_split: "endsWith s suffix \<Longrightarrow> \<exists>p. s = p @ suffix"
  by (metis append_take_drop_id endsWith_def)

lemma indexUser_fields:
  "peopleNames (indexUser st u) = peopleNames st @ peopleNames (indexUser emptyIndex u)"
  "twitterHandles (indexUser st u) = twitterHandles st @ twitterHandles (indexUser emptyIndex u)"
  "usernames (indexUser st u) = usernames st @ usernames (indexUser emptyIndex u)"
  "errors (indexUser st u) = errors st @ errors (indexUser emptyIndex u)"
  "searchProfiles (indexUser st u) = searchProfiles st @ searchProfiles (indexUser emptyIndex u)"
  by (simp_all add: indexUser_def emptyIndex_def split: sum.splits prod.splits)

lemma foldl_indexUser_fields:
  "peopleNames (foldl indexUser st us) = peopleNames st @ peopleNames (scanUsers us) \<and>
   twitterHandles (foldl indexUser st us) = twitterHandles st @ twitterHandles (scanUsers us) \<and>
   usernames (foldl indexUser st us) = usernames st @ usernames (scanUsers us) \<and>
   errors (foldl indexUser st us) = errors st @ errors (scanUsers us) \<and>
   searchProfiles (foldl indexUser st us) = searchProfiles st @ searchProfiles (scanUsers us)"
proof (induction us arbitrary: st)
  case Nil
  show ?case by (simp add: scanUsers_def emptyIndex_def)
next
  case (Cons u us)
  have a: "scanUsers (u # us) = foldl indexUser (indexUser emptyIndex u) us"
    by (simp add: scanUsers_def)
  show ?case
    unfolding a foldl_Cons
    using Cons[of "indexUser st u"] Cons[of "indexUser emptyIndex u"] indexUser_fields[of st u]
    by simp
qed

lemma scanUsers_append:
  "peopleNames (scanUsers (us @ vs)) = peopleNames (scanUsers us) @ peopleNames (scanUsers vs)"
  "twitterHandles (scanUsers (us @ vs)) = twitterHandles (scanUsers us) @ twitterHandles (scanUsers vs)"
  "usernames (scanUsers (us @ vs)) = usernames (scanUsers us) @ usernames (scanUsers vs)"
  "errors (scanUsers (us @ vs)) = errors (scanUsers us) @ errors (scanUsers vs)"
  "searchProfiles (scanUsers (us @ vs)) = searchProfiles (scanUsers us) @ searchProfiles (scanUsers vs)"
  using foldl_indexUser_fields[of "scanUsers us" vs]
  by (simp_all add: scanUsers_def)

lemma scanUsers_failed:
  assumes "scanAccounts (profile user) = Inl err"
  shows "peopleNames (scanUsers (user # vs)) = peopleNames (scanUsers vs)"
    "twitterHandles (scanUsers (user # vs)) = twitterHandles (scanUsers vs)"
    "usernames (scanUsers (user # vs)) = usernames (scanUsers vs)"
    "errors (scanUsers (user # vs)) = fqu user # errors (scanUsers vs)"
    "searchProfiles (scanUsers (user # vs)) = searchProfiles (scanUsers vs)"
proof -
  have "indexUser emptyIndex user = emptyIndex\<lparr>errors := [fqu user]\<rparr>"
    using assms by (simp add: indexUser_def emptyIndex_def)
  then have "scanUsers (user # vs) = foldl indexUser (emptyIndex\<lparr>errors := [fqu user]\<rparr>) vs"
    by (simp add: scanUsers_def)
  then show "peopleNames (scanUsers (user # vs)) = peopleNames (scanUsers vs)"
    "twitterHandles (scanUsers (user # vs)) = twitterHandles (scanUsers vs)"
    "usernames (scanUsers (user # vs)) = usernames (scanUsers vs)"
    "errors (scanUsers (user # vs)) = fqu user # errors (scanUsers vs)"
    "searchProfiles (scanUsers (user # vs)) = searchProfiles (scanUsers vs)"
    using foldl_indexUser_fields[of "emptyIndex\<lparr>errors := [fqu user]\<rparr>" vs]
    by (simp_all add: emptyIndex_def)
qed

lemmas index_eval = createSearchIndex_def scanUsers_def emptyIndex_def indexUser_def
  scanAccounts_def scanAccount_def displayName_def getProp_def newSet_def setAdd_def lowerChar_def

section \<open>Claims about the index builder and the username derivation\<close>

text \<open>
  C7. Index building over the two namespace records
  \<open>{fqu:"a.id", profile:{name:{formatted:"Alice A"}, account:[{service:"twitter", identifier:"@a"}]}}\<close>
  and \<open>{fqu:"b.id", profile:{name:"bob"}}\<close> produces a name cache whose values are exactly
  \<open>alice a\<close> and \<open>bob\<close> (the display name comes from \<open>profile.name\<close>, its \<open>formatted\<close>
  field when there is one, in lower case), a handle cache whose only value is \<open>@a\<close>, and a
  username cache whose values are exactly \<open>a.id\<close> and \<open>b.id\<close>, each without duplicates.
\<close>

theorem createSearchIndex_example:
  "set (cacheValues (peopleCache (createSearchIndex [aliceRecord, bobRecord]))) =
     {JStr ''alice a'', JStr ''bob''} \<and>
   set (cacheValues (twitterCache (createSearchIndex [aliceRecord, bobRecord]))) = {JStr ''@a''} \<and>
   set (cacheValues (usernameCache (createSearchIndex [aliceRecord, bobRecord]))) =
     {JStr ''a.id'', JStr ''b.id''} \<and>
   distinct (cacheValues (peopleCache (createSearchIndex [aliceRecord, bobRecord]))) \<and>
   distinct (cacheValues (twitterCache (createSearchIndex [aliceRecord, bobRecord]))) \<and>
   distinct (cacheValues (usernameCache (createSearchIndex [aliceRecord, bobRecord])))"
  by (simp add: index_eval aliceRecord_def bobRecord_def)

text \<open>
  C8. For every fully qualified name, the derived username is the name without its last
  three characters when the name ends with \<open>.id\<close>, and the name itself otherwise:
  \<open>alice.id\<close> gives \<open>alice\<close>, \<open>bob.test\<close> gives \<open>bob.test\<close>.
\<close>

theorem deriveUsername_strips_id:
  "deriveUsername (name @ ''.id'') = name \<and>
   ((\<nexists>p. fullName = p @ ''.id'') \<longrightarrow> deriveUsername fullName = fullName) \<and>
   deriveUsername ''alice.id'' = ''alice'' \<and>
   deriveUsername ''bob.test'' = ''bob.test''"
proof -
  have "endsWith (name @ ''.id'') ''.id''" by (rule endsWith_append)
  then have 1: "deriveUsername (name @ ''.id'') = name" by (simp add: deriveUsername_def)
  have 2: "(\<nexists>p. fullName = p @ ''.id'') \<longrightarrow> deriveUsername fullName = fullName"
    using endsWith_split[of fullName "''.id''"] by (auto simp: deriveUsername_def)
  have 3: "deriveUsername ''alice.id'' = ''alice''" "deriveUsername ''bob.test'' = ''bob.test''"
    by (simp_all add: deriveUsername_def endsWith_def)
  from 1 2 3 show ?thesis by blast
qed

theorem deriveUsername_strips_id_witness:
  "deriveUsername (''carol'' @ ''.id'') = ''carol'' \<and> deriveUsername ''dave.idx'' = ''dave.idx''"
proof -
  have "\<nexists>p. ''dave.idx'' = p @ ''.id''"
  proof
    assume "\<exists>p. ''dave.idx'' = p @ ''.id''"
    then obtain p where "''dave.idx'' = p @ ''.id''" by blast
    then have "last ''dave.idx'' = last (p @ ''.id'')" by simp
    then show False by simp
  qed
  with deriveUsername_strips_id[of "''carol''" "''dave.idx''"] show ?thesis by blast
qed


text \<open>
  C9. During index building, a record whose profile raises an error during account
  scanning has its \<open>fqu\<close> appended to the error list, contributes no value to any of the
  three caches (they are the caches of the run without the record), and does not prevent
  the records after it from being processed.
\<close>

theorem createSearchIndex_skips_failed_record:
  assumes "scanAccounts (profile user) = Inl err"
  shows "peopleCache (createSearchIndex (before @ user # after)) =
           peopleCache (createSearchIndex (before @ after)) \<and>
         twitterCache (createSearchIndex (before @ user # after)) =
           twitterCache (createSearchIndex (before @ after)) \<and>
         usernameCache (createSearchIndex (before @ user # after)) =
           usernameCache (createSearchIndex (before @ after)) \<and>
         savedProfiles (createSearchIndex (before @ user # after)) =
           savedProfiles (createSearchIndex (before @ after)) \<and>
         errorNames (createSearchIndex (before @ user # after)) =
           errorNames (createSearchIndex before) @ fqu user # errorNames (createSearchIndex after)"
  using scanUsers_failed[OF assms, of after]
  by (simp add: createSearchIndex_def Let_def scanUsers_append)

theorem createSearchIndex_skips_failed_record_witness:
  "scanAccounts (profile brokenRecord) = Inl TypeError \<and>
   errorNames (createSearchIndex ([aliceRecord] @ brokenRecord # [bobRecord])) = [JStr ''e.id''] \<and>
   peopleCache (createSearchIndex ([aliceRecord] @ brokenRecord # [bobRecord])) =
     JObj [(''name'', JArr [JStr ''alice a'', JStr ''bob''])] \<and>
   twitterCache (createSearchIndex ([aliceRecord] @ brokenRecord # [bobRecord])) =
     JObj [(''twitter_handle'', JArr [JStr ''@a''])] \<and>
   usernameCache (createSearchIndex ([aliceRecord] @ brokenRecord # [bobRecord])) =
     JObj [(''username'', JArr [JStr ''a.id'', JStr ''b.id''])]"
proof -
  have f: "scanAccounts (profile brokenRecord) = Inl TypeError"
    by (simp add: brokenRecord_def scanAccounts_def scanAccount_def getProp_def)
  have e: "errorNames (createSearchIndex [aliceRecord]) = []"
    "errorNames (createSearchIndex [bobRecord]) = []"
    by (simp_all add: index_eval aliceRecord_def bobRecord_def)
  have c: "peopleCache (createSearchIndex ([aliceRecord] @ [bobRecord])) =
             JObj [(''name'', JArr [JStr ''alice a'', JStr ''bob''])]"
    "twitterCache (createSearchIndex ([aliceRecord] @ [bobRecord])) =
             JObj [(''twitter_handle'', JArr [JStr ''@a''])]"
    "usernameCache (createSearchIndex ([aliceRecord] @ [bobRecord])) =
             JObj [(''username'', JArr [JStr ''a.id'', JStr ''b.id''])]"
    by (simp_all add: index_eval aliceRecord_def bobRecord_def)
  have q: "fqu brokenRecord = JStr ''e.id''" by (simp add: brokenRecord_def)
  from createSearchIndex_skips_failed_record[OF f, of "[aliceRecord]" "[bobRecord]"] f e c q
  show ?thesis by simp
qed

section \<open>Properties of the persistence of the resolved entries\<close>

lemma map_filter_none:
  "\<forall>x\<in>set xs. g x = None \<Longrightarrow> List.map_filter g xs = []"
  by (induction xs) (simp_all add: List.map_filter_def)

lemma map_filter_app:
  "List.map_filter f (xs @ ys) = List.map_filter f xs @ List.map_filter f ys"
  by (simp add: List.map_filter_def)

lemma enumerate_map_nth:
  "enumerate 0 (map f xs) = map (\<lambda>i. (i, f (xs ! i))) [0..<length xs]"
  by (rule nth_equalityI) (simp_all add: nth_enumerate_eq)

lemma settlements_set:
  "set (settlements st c saves) =
     (\<lambda>(i, doc). if fulfils st c i doc then SaveDone c i doc else SaveFailed c i doc) ` set saves"
  by (simp add: settlements_def)

lemma settlements_fulfilled:
  assumes "list_all (\<lambda>(i, doc). fulfils st c i doc) saves"
  shows "settlements st c saves =
           map (\<lambda>(i, doc). SaveDone c i doc) (sort_key (\<lambda>(i, doc). answeredAt st c i doc) saves)"
proof -
  have "\<forall>p \<in> set (sort_key (\<lambda>(i, doc). answeredAt st c i doc) saves).
          (case p of (i, doc) \<Rightarrow> fulfils st c i doc)"
    using assms by (simp add: list_all_iff)
  then show ?thesis unfolding settlements_def by (intro map_cong) auto
qed

lemma issued_parts:
  "List.map_filter issuedProfileSave (map (\<lambda>(i, doc). SaveIssued ProfileCollection i doc) saves) = saves"
  "List.map_filter issuedProfileSave (settlements st c saves) = []"
  "List.map_filter issuedProfileSave (map namespaceEvent es) = []"
proof -
  show "List.map_filter issuedProfileSave
          (map (\<lambda>(i, doc). SaveIssued ProfileCollection i doc) saves) = saves"
    by (induction saves) (auto simp: List.map_filter_def)
  show "List.map_filter issuedProfileSave (settlements st c saves) = []"
    by (rule map_filter_none) (auto simp: settlements_set)
  show "List.map_filter issuedProfileSave (map namespaceEvent es) = []"
    by (rule map_filter_none) (auto simp: namespaceEvent_def split: option.splits)
qed

lemma done_parts:
  "List.map_filter doneProfileSave (map (\<lambda>(i, doc). SaveIssued c i doc) saves) = []"
  "List.map_filter doneProfileSave (settlements st NamespaceCollection saves) = []"
  "List.map_filter doneProfileSave (map namespaceEvent es) = []"
  "List.map_filter doneProfileSave (map (\<lambda>(i, doc). SaveDone ProfileCollection i doc) saves) = saves"
proof -
  show "List.map_filter doneProfileSave (map (\<lambda>(i, doc). SaveIssued c i doc) saves) = []"
    by (rule map_filter_none) auto
  show "List.map_filter doneProfileSave (settlements st NamespaceCollection saves) = []"
    by (rule map_filter_none) (auto simp: settlements_set)
  show "List.map_filter doneProfileSave (map namespaceEvent es) = []"
    by (rule map_filter_none) (auto simp: namespaceEvent_def split: option.splits)
  show "List.map_filter doneProfileSave
          (map (\<lambda>(i, doc). SaveDone ProfileCollection i doc) saves) = saves"
    by (induction saves) (auto simp: List.map_filter_def)
qed

lemma split_after_prefix:
  assumes "x \<notin> set P" and "pre @ x # post = P @ R"
  shows "\<exists>q. pre = P @ q"
proof -
  from assms(2) obtain us where
    "(pre = P @ us \<and> us @ x # post = R) \<or> (pre @ us = P \<and> x # post = us @ R)"
    by (auto simp: append_eq_append_conv2)
  then show ?thesis
  proof
    assume "pre = P @ us \<and> us @ x # post = R"
    then show ?thesis by blast
  next
    assume a: "pre @ us = P \<and> x # post = us @ R"
    show ?thesis
    proof (cases us)
      case Nil
      then show ?thesis using a by simp
    next
      case (Cons u us')
      then have "x \<in> set P" using a by auto
      then show ?thesis using assms(1) by simp
    qed
  qed
qed

text \<open>The trace of a run, in the two cases of the first pass.\<close>

lemma processResults_fulfilled:
  assumes "list_all (\<lambda>(i, doc). fulfils st ProfileCollection i doc) (enumerate 0 (map profileDoc entries))"
  shows "fst (processResults st entries) =
           (map (\<lambda>(i, doc). SaveIssued ProfileCollection i doc) (enumerate 0 (map profileDoc entries)) @
            settlements st ProfileCollection (enumerate 0 (map profileDoc entries))) @
           (map namespaceEvent
              (enumerate 0 (map (\<lambda>entry. entry\<lparr>profile := cleanEntry (profile entry)\<rparr>) entries)) @
            settlements st NamespaceCollection
              (List.map_filter namespaceSave
                 (enumerate 0 (map (\<lambda>entry. entry\<lparr>profile := cleanEntry (profile entry)\<rparr>) entries))))"
  using assms unfolding processResults_def Let_def by simp

lemma processResults_rejected:
  assumes "\<not> list_all (\<lambda>(i, doc). fulfils st ProfileCollection i doc) (enumerate 0 (map profileDoc entries))"
  shows "processResults st entries =
           (map (\<lambda>(i, doc). SaveIssued ProfileCollection i doc) (enumerate 0 (map profileDoc entries)) @
            settlements st ProfileCollection (enumerate 0 (map profileDoc entries)), Inl SaveError)"
  using assms unfolding processResults_def Let_def by simp

lemma processResults_issued:
  "List.map_filter issuedProfileSave (fst (processResults st entries)) =
     enumerate 0 (map profileDoc entries)"
proof (cases "list_all (\<lambda>(i, doc). fulfils st ProfileCollection i doc) (enumerate 0 (map profileDoc entries))")
  case True
  show ?thesis unfolding processResults_fulfilled[OF True]
    by (simp only: map_filter_app issued_parts append_Nil2)
next
  case False
  show ?thesis unfolding processResults_rejected[OF False]
    by (simp only: fst_conv map_filter_app issued_parts append_Nil2)
qed

lemma processResults_done:
  assumes "list_all (\<lambda>(i, doc). fulfils st ProfileCollection i doc) (enumerate 0 (map profileDoc entries))"
  shows "List.map_filter doneProfileSave (fst (processResults st entries)) =
           sort_key (\<lambda>(i, doc). answeredAt st ProfileCollection i doc)
             (enumerate 0 (map profileDoc entries))"
  unfolding processResults_fulfilled[OF assms] settlements_fulfilled[OF assms]
  by (simp only: map_filter_app done_parts append_Nil2 append_Nil)

lemma processResults_result:
  assumes "snd (processResults st entries) = Inr ()"
  shows "list_all (\<lambda>(i, doc). fulfils st ProfileCollection i doc) (enumerate 0 (map profileDoc entries))"
proof (rule ccontr)
  assume "\<not> ?thesis"
  from processResults_rejected[OF this] assms show False by simp
qed

lemma processResults_order:
  assumes t: "fst (processResults st entries) = pre @ SaveIssued NamespaceCollection i nsDoc # post"
    and s: "save \<in> set (enumerate 0 (map profileDoc entries))"
  shows "SaveDone ProfileCollection (fst save) (snd save) \<in> set pre"
proof (cases "list_all (\<lambda>(i, doc). fulfils st ProfileCollection i doc) (enumerate 0 (map profileDoc entries))")
  case True
  let ?saves = "enumerate 0 (map profileDoc entries)"
  let ?P = "map (\<lambda>(i, doc). SaveIssued ProfileCollection i doc) ?saves @
            settlements st ProfileCollection ?saves"
  have x: "SaveIssued NamespaceCollection i nsDoc \<notin> set ?P"
    by (auto simp: settlements_set split: if_splits)
  have "pre @ SaveIssued NamespaceCollection i nsDoc # post = fst (processResults st entries)"
    by (rule t[symmetric])
  also note processResults_fulfilled[OF True]
  finally obtain q where q: "pre = ?P @ q"
    using split_after_prefix[OF x] by blast
  have "fulfils st ProfileCollection (fst save) (snd save)"
    using True s by (auto simp: list_all_iff)
  then have "SaveDone ProfileCollection (fst save) (snd save) \<in> set (settlements st ProfileCollection ?saves)"
    using s unfolding settlements_set
    by (intro image_eqI[where x = save]) (simp_all add: case_prod_beta)
  then show ?thesis using q by simp
next
  case False
  have "SaveIssued NamespaceCollection i nsDoc \<in> set (fst (processResults st entries))"
    unfolding t by simp
  then have "SaveIssued NamespaceCollection i nsDoc \<in>
      set (map (\<lambda>(i, doc). SaveIssued ProfileCollection i doc) (enumerate 0 (map profileDoc entries)) @
           settlements st ProfileCollection (enumerate 0 (map profileDoc entries)))"
    unfolding processResults_rejected[OF False] by simp
  then show ?thesis by (auto simp: settlements_set split: if_splits)
qed

lemma processResults_namespace_issued:
  assumes ok: "list_all (\<lambda>(i, doc). fulfils st ProfileCollection i doc) (enumerate 0 (map profileDoc entries))"
    and i: "i < length entries" and s: "fqu (entries ! i) = JStr s"
  shows "SaveIssued NamespaceCollection i
           (JObj [(''username'', JStr (deriveUsername s)), (''fqu'', JStr s),
                  (''profile'', cleanEntry (cleanEntry (profile (entries ! i))))])
         \<in> set (fst (processResults st entries))"
proof -
  let ?cleaned = "map (\<lambda>entry. entry\<lparr>profile := cleanEntry (profile entry)\<rparr>) entries"
  have m: "(i, ?cleaned ! i) \<in> set (enumerate 0 ?cleaned)"
    using i by (simp add: in_set_enumerate_eq)
  have "namespaceEvent (i, ?cleaned ! i) =
          SaveIssued NamespaceCollection i
           (JObj [(''username'', JStr (deriveUsername s)), (''fqu'', JStr s),
                  (''profile'', cleanEntry (cleanEntry (profile (entries ! i))))])"
    using i s by (simp add: namespaceEvent_def namespaceDoc_def)
  moreover have "namespaceEvent (i, ?cleaned ! i) \<in> namespaceEvent ` set (enumerate 0 ?cleaned)"
    using m by (rule imageI)
  ultimately have "SaveIssued NamespaceCollection i
           (JObj [(''username'', JStr (deriveUsername s)), (''fqu'', JStr s),
                  (''profile'', cleanEntry (cleanEntry (profile (entries ! i))))])
         \<in> set (map namespaceEvent (enumerate 0 ?cleaned))"
    by (simp only: set_map)
  then show ?thesis unfolding processResults_fulfilled[OF ok] set_append by blast
qed

lemma all_saves_fulfilled:
  "list_all (\<lambda>(i, doc). fulfils st c i doc) (enumerate 0 (map profileDoc entries)) \<longleftrightarrow>
   (\<forall>i<length entries. fulfils st c i (profileDoc (entries ! i)))"
  by (auto simp: enumerate_map_nth list_all_iff)

section \<open>Claims about the persistence of the resolved entries\<close>

text \<open>
  C10. Every run of \<open>processAllNames\<close> whose entries are obtained settles, and it issues,
  besides the saves into the namespace collection, one save of the record
  \<open>{ key: fqu, value: sanitized profile }\<close> per resolved entry into the profile collection.
  When the store fulfils these saves, each of them completes exactly once, in whatever
  order the store answers, and the namespace save of every entry with a string \<open>fqu\<close> is
  issued; a fulfilled run is such a run. Every profile save has completed before any save
  into the namespace collection is issued.
\<close>

theorem processAllNames_profile_saves_first:
  assumes "fetchingPromise fetch lookupProfile d B useFiles cap = Some (Inr (names, entries))"
    and "doc = (\<lambda>i. JObj [(''key'', fqu (entries ! i)),
                            (''value'', cleanEntry (profile (entries ! i)))])"
  shows "\<exists>trace res.
      processAllNames fetch lookupProfile d B st useFiles cap = Some (trace, res) \<and>
      List.map_filter issuedProfileSave trace = map (\<lambda>i. (i, doc i)) [0..<length entries] \<and>
      ((\<forall>i<length entries. fulfils st ProfileCollection i (doc i)) \<longrightarrow>
         set (List.map_filter doneProfileSave trace) =
           set (map (\<lambda>i. (i, doc i)) [0..<length entries]) \<and>
         distinct (List.map_filter doneProfileSave trace) \<and>
         (\<forall>i<length entries. \<forall>s. fqu (entries ! i) = JStr s \<longrightarrow>
            SaveIssued NamespaceCollection i
              (JObj [(''username'', JStr (deriveUsername s)), (''fqu'', JStr s),
                     (''profile'', cleanEntry (cleanEntry (profile (entries ! i))))])
            \<in> set trace)) \<and>
      (res = Inr () \<longrightarrow> (\<forall>i<length entries. fulfils st ProfileCollection i (doc i))) \<and>
      (\<forall>pre i nsDoc post. trace = pre @ SaveIssued NamespaceCollection i nsDoc # post \<longrightarrow>
         (\<forall>j<length entries. SaveDone ProfileCollection j (doc j) \<in> set pre))"
proof -
  let ?trace = "fst (processResults st entries)"
  let ?res = "snd (processResults st entries)"
  let ?saves = "enumerate 0 (map profileDoc entries)"
  have doc: "doc i = profileDoc (entries ! i)" for i
    by (simp add: assms(2) profileDoc_def)
  have saves: "?saves = map (\<lambda>i. (i, doc i)) [0..<length entries]"
    by (simp add: enumerate_map_nth doc)
  have ok: "list_all (\<lambda>(i, doc). fulfils st ProfileCollection i doc) ?saves \<longleftrightarrow>
            (\<forall>i<length entries. fulfils st ProfileCollection i (doc i))"
    by (simp add: all_saves_fulfilled doc)
  have run: "processAllNames fetch lookupProfile d B st useFiles cap = Some (?trace, ?res)"
    using assms(1) by (simp add: processAllNames_def)
  have 1: "List.map_filter issuedProfileSave ?trace = map (\<lambda>i. (i, doc i)) [0..<length entries]"
    using processResults_issued[of st entries] saves by simp
  have 2: "set (List.map_filter doneProfileSave ?trace) =
             set (map (\<lambda>i. (i, doc i)) [0..<length entries]) \<and>
           distinct (List.map_filter doneProfileSave ?trace) \<and>
           (\<forall>i<length entries. \<forall>s. fqu (entries ! i) = JStr s \<longrightarrow>
              SaveIssued NamespaceCollection i
                (JObj [(''username'', JStr (deriveUsername s)), (''fqu'', JStr s),
                       (''profile'', cleanEntry (cleanEntry (profile (entries ! i))))])
              \<in> set ?trace)"
    if f: "\<forall>i<length entries. fulfils st ProfileCollection i (doc i)"
  proof -
    have all: "list_all (\<lambda>(i, doc). fulfils st ProfileCollection i doc) ?saves"
      using f ok by simp
    have d: "List.map_filter doneProfileSave ?trace =
               sort_key (\<lambda>(i, doc). answeredAt st ProfileCollection i doc) ?saves"
      by (rule processResults_done[OF all])
    have "set (List.map_filter doneProfileSave ?trace) = set ?saves" unfolding d by simp
    moreover have "distinct (List.map_filter doneProfileSave ?trace)" unfolding d by simp
    ultimately show ?thesis
      using saves processResults_namespace_issued[OF all] by simp
  qed
  have 3: "?res = Inr () \<longrightarrow> (\<forall>i<length entries. fulfils st ProfileCollection i (doc i))"
    using processResults_result[of st entries] ok by blast
  have 4: "SaveDone ProfileCollection j (doc j) \<in> set pre"
    if t: "?trace = pre @ SaveIssued NamespaceCollection i nsDoc # post" and j: "j < length entries"
    for pre i nsDoc post j
  proof -
    have "(j, doc j) \<in> set ?saves" using j unfolding saves by simp
    from processResults_order[OF t this] show ?thesis by simp
  qed
  show ?thesis
  proof (intro exI[of _ ?trace] exI[of _ ?res] conjI)
    show "processAllNames fetch lookupProfile d B st useFiles cap = Some (?trace, ?res)"
      by (rule run)
    show "List.map_filter issuedProfileSave ?trace = map (\<lambda>i. (i, doc i)) [0..<length entries]"
      by (rule 1)
    show "(\<forall>i<length entries. fulfils st ProfileCollection i (doc i)) \<longrightarrow>
         set (List.map_filter doneProfileSave ?trace) =
           set (map (\<lambda>i. (i, doc i)) [0..<length entries]) \<and>
         distinct (List.map_filter doneProfileSave ?trace) \<and>
         (\<forall>i<length entries. \<forall>s. fqu (entries ! i) = JStr s \<longrightarrow>
            SaveIssued NamespaceCollection i
              (JObj [(''username'', JStr (deriveUsername s)), (''fqu'', JStr s),
                     (''profile'', cleanEntry (cleanEntry (profile (entries ! i))))])
            \<in> set ?trace)"
      by (rule impI) (rule 2)
    show "?res = Inr () \<longrightarrow> (\<forall>i<length entries. fulfils st ProfileCollection i (doc i))"
      by (rule 3)
    show "\<forall>pre i nsDoc post. ?trace = pre @ SaveIssued NamespaceCollection i nsDoc # post \<longrightarrow>
         (\<forall>j<length entries. SaveDone ProfileCollection j (doc j) \<in> set pre)"
      by (intro allI impI) (rule 4)
  qed
qed

theorem processAllNames_profile_saves_first_witness:
  "fetchingPromise twoPageService dottedProfiles 0 5 None None =
     Some (Inr ([''a'', ''b'', ''c'', ''s''], resolvedEntries)) \<and>
   processAllNames twoPageService dottedProfiles 0 5 lastFirstStore None None =
     Some ([SaveIssued ProfileCollection 0
              (JObj [(''key'', JStr ''a''), (''value'', JObj [(''a_b'', JStr ''a'')])]),
            SaveIssued ProfileCollection 1
              (JObj [(''key'', JStr ''c''), (''value'', JObj [(''a_b'', JStr ''c'')])]),
            SaveIssued ProfileCollection 2
              (JObj [(''key'', JStr ''s''), (''value'', JObj [(''a_b'', JStr ''s'')])]),
            SaveDone ProfileCollection 2
              (JObj [(''key'', JStr ''s''), (''value'', JObj [(''a_b'', JStr ''s'')])]),
            SaveDone ProfileCollection 1
              (JObj [(''key'', JStr ''c''), (''value'', JObj [(''a_b'', JStr ''c'')])]),
            SaveDone ProfileCollection 0
              (JObj [(''key'', JStr ''a''), (''value'', JObj [(''a_b'', JStr ''a'')])]),
            SaveIssued NamespaceCollection 0
              (JObj [(''username'', JStr ''a''), (''fqu'', JStr ''a''),
                     (''profile'', JObj [(''a_b'', JStr ''a'')])]),
            SaveIssued NamespaceCollection 1
              (JObj [(''username'', JStr ''c''), (''fqu'', JStr ''c''),
                     (''profile'', JObj [(''a_b'', JStr ''c'')])]),
            SaveIssued NamespaceCollection 2
              (JObj [(''username'', JStr ''s''), (''fqu'', JStr ''s''),
                     (''profile'', JObj [(''a_b'', JStr ''s'')])]),
            SaveDone NamespaceCollection 2
              (JObj [(''username'', JStr ''s''), (''fqu'', JStr ''s''),
                     (''profile'', JObj [(''a_b'', JStr ''s'')])]),
            SaveDone NamespaceCollection 1
              (JObj [(''username'', JStr ''c''), (''fqu'', JStr ''c''),
                     (''profile'', JObj [(''a_b'', JStr ''c'')])]),
            SaveDone NamespaceCollection 0
              (JObj [(''username'', JStr ''a''), (''fqu'', JStr ''a''),
                     (''profile'', JObj [(''a_b'', JStr ''a'')])])],
           Inr ()) \<and>
   SaveDone ProfileCollection 2
     (JObj [(''key'', JStr ''s''), (''value'', JObj [(''a_b'', JStr ''s'')])]) \<in>
     set [SaveIssued ProfileCollection 0
              (JObj [(''key'', JStr ''a''), (''value'', JObj [(''a_b'', JStr ''a'')])]),
          SaveIssued ProfileCollection 1
              (JObj [(''key'', JStr ''c''), (''value'', JObj [(''a_b'', JStr ''c'')])]),
          SaveIssued ProfileCollection 2
              (JObj [(''key'', JStr ''s''), (''value'', JObj [(''a_b'', JStr ''s'')])]),
          SaveDone ProfileCollection 2
              (JObj [(''key'', JStr ''s''), (''value'', JObj [(''a_b'', JStr ''s'')])]),
          SaveDone ProfileCollection 1
              (JObj [(''key'', JStr ''c''), (''value'', JObj [(''a_b'', JStr ''c'')])]),
          SaveDone ProfileCollection 0
              (JObj [(''key'', JStr ''a''), (''value'', JObj [(''a_b'', JStr ''a'')])])]"
proof -
  let ?p0 = "JObj [(''key'', JStr ''a''), (''value'', JObj [(''a_b'', JStr ''a'')])]"
  let ?p1 = "JObj [(''key'', JStr ''c''), (''value'', JObj [(''a_b'', JStr ''c'')])]"
  let ?p2 = "JObj [(''key'', JStr ''s''), (''value'', JObj [(''a_b'', JStr ''s'')])]"
  let ?n0 = "JObj [(''username'', JStr ''a''), (''fqu'', JStr ''a''),
                   (''profile'', JObj [(''a_b'', JStr ''a'')])]"
  let ?n1 = "JObj [(''username'', JStr ''c''), (''fqu'', JStr ''c''),
                   (''profile'', JObj [(''a_b'', JStr ''c'')])]"
  let ?n2 = "JObj [(''username'', JStr ''s''), (''fqu'', JStr ''s''),
                   (''profile'', JObj [(''a_b'', JStr ''s'')])]"
  let ?pre = "[SaveIssued ProfileCollection 0 ?p0, SaveIssued ProfileCollection 1 ?p1,
               SaveIssued ProfileCollection 2 ?p2, SaveDone ProfileCollection 2 ?p2,
               SaveDone ProfileCollection 1 ?p1, SaveDone ProfileCollection 0 ?p0]"
  let ?post = "[SaveIssued NamespaceCollection 1 ?n1, SaveIssued NamespaceCollection 2 ?n2,
                SaveDone NamespaceCollection 2 ?n2, SaveDone NamespaceCollection 1 ?n1,
                SaveDone NamespaceCollection 0 ?n0]"
  have pn: "\<forall>p<2. pageNames twoPageService (NamesPage p) \<noteq> []"
    "\<forall>p<1. pageNames twoPageService (SubdomainsPage p) \<noteq> []"
    by (simp_all add: twoPageService_def pageNames_def less_Suc_eq numeral_2_eq_2)
  have off: "\<not> (\<exists>N. (None :: int option) = Some N \<and> 0 < N)" by simp
  have "getAllNames_rec twoPageService 0 [] None =
      Some (Inr ([] @ concat (map (\<lambda>p. pageNames twoPageService (NamesPage p)) [0..<2])))"
    by (rule getAllNames_rec_uncapped[OF off pn(1)]) (simp_all add: twoPageService_def)
  then have g1: "getAllNames twoPageService None = Some (Inr [''a'', ''b'', ''c''])"
    by (simp add: getAllNames_def twoPageService_def pageNames_def upt_rec numeral_2_eq_2)
  have "getAllSubdomains_rec twoPageService 0 [] None =
      Some (Inr ([] @ concat (map (\<lambda>p. pageNames twoPageService (SubdomainsPage p)) [0..<1])))"
    by (rule getAllSubdomains_rec_uncapped[OF off pn(2)]) (simp_all add: twoPageService_def)
  then have g2: "getAllSubdomains twoPageService None = Some (Inr [''s''])"
    by (simp add: getAllSubdomains_def twoPageService_def pageNames_def)
  have c: "cleanEntry (JObj [(''a.b'', JStr x)]) = JObj [(''a_b'', JStr x)]"
    "cleanEntry (JObj [(''a_b'', JStr x)]) = JObj [(''a_b'', JStr x)]" for x
    by (simp_all add: clean_eval)
  have fn: "fetchNames dottedProfiles 0 [''a'', ''b'', ''c'', ''s''] 5 =
      (resolvedEntries, 1, [LookupBatch [''a'', ''b'', ''c'', ''s'']])"
    by (simp add: fetchNames_def fetchLoop_def fetchStep_def runBatch_def collectResult_def
        fetchName_def lookupProfileWithTimeout_def dottedProfiles_def resolvedEntries_def c)
  have f: "fetchingPromise twoPageService dottedProfiles 0 5 None None =
      Some (Inr ([''a'', ''b'', ''c'', ''s''], resolvedEntries))"
    by (simp add: fetchingPromise_def fetchAllNames_def g1 g2 fn)
  have pr: "processResults lastFirstStore resolvedEntries =
      (?pre @ SaveIssued NamespaceCollection 0 ?n0 # ?post, Inr ())"
    by (simp add: processResults_def Let_def resolvedEntries_def profileDoc_def c
        settlements_def lastFirstStore_def enumerate_simps List.map_filter_def
        namespaceSave_def namespaceDoc_def namespaceEvent_def deriveUsername_def endsWith_def)
  have run: "processAllNames twoPageService dottedProfiles 0 5 lastFirstStore None None =
      Some (?pre @ SaveIssued NamespaceCollection 0 ?n0 # ?post, Inr ())"
    by (simp add: processAllNames_def f pr)
  from processAllNames_profile_saves_first[OF f refl, of lastFirstStore] run
  have "\<forall>pre i nsDoc post.
          ?pre @ SaveIssued NamespaceCollection 0 ?n0 # ?post =
            pre @ SaveIssued NamespaceCollection i nsDoc # post \<longrightarrow>
          (\<forall>j<length resolvedEntries.
             SaveDone ProfileCollection j
               (JObj [(''key'', fqu (resolvedEntries ! j)),
                      (''value'', cleanEntry (profile (resolvedEntries ! j)))]) \<in> set pre)"
    by auto
  then have "\<forall>j<length resolvedEntries.
             SaveDone ProfileCollection j
               (JObj [(''key'', fqu (resolvedEntries ! j)),
                      (''value'', cleanEntry (profile (resolvedEntries ! j)))]) \<in> set ?pre"
    by blast
  moreover have "2 < length resolvedEntries" by (simp add: resolvedEntries_def)
  ultimately have "SaveDone ProfileCollection 2
               (JObj [(''key'', fqu (resolvedEntries ! 2)),
                      (''value'', cleanEntry (profile (resolvedEntries ! 2)))]) \<in> set ?pre"
    by blast
  then have "SaveDone ProfileCollection 2 ?p2 \<in> set ?pre"
    by (simp add: resolvedEntries_def c)
  then show ?thesis using f run by simp
qed

end
